theory Spec2Isabelle
  imports Main "HOL-Library.Sublist" "HOL-Library.Char_ord" "HOL-Library.List_Lexorder"
begin

section \<open>Bytes, the scrubbing flag and the keyword prefilter\<close>

text \<open>
  The package scrubs JSON messages before they are logged. A Go \<^verbatim>\<open>[]byte\<close> and a Go
  \<^verbatim>\<open>string\<close> are both sequences of bytes, here \<open>char list\<close> (a \<open>char\<close> is one
  byte). A \<^verbatim>\<open>nil\<close> slice and the empty string are the empty list.
\<close>

type_synonym bytes = "char list"

text \<open>\<^verbatim>\<open>const ScrubbedReplacement = "<scrubbed>"\<close>\<close>

definition ScrubbedReplacement :: string where
  "ScrubbedReplacement = ''<scrubbed>''"

text \<open>
  \<^verbatim>\<open>_scrub int32\<close> is the only state of the package. The operations only read it, so each
  takes its value as an argument; \<open>SetScrubbing\<close> returns the value it stores.
\<close>

definition SetScrubbing :: "bool \<Rightarrow> int" where
  "SetScrubbing enable = (if enable then 1 else 0)"

definition IsScrubbingEnabled :: "int \<Rightarrow> bool" where
  "IsScrubbingEnabled v \<longleftrightarrow> v \<noteq> 0"

text \<open>\<^verbatim>\<open>bytes.Contains(b, sub)\<close>: \<open>sub\<close> occurs in \<open>b\<close> as a contiguous run.\<close>

fun Contains :: "bytes \<Rightarrow> bytes \<Rightarrow> bool" where
  "Contains [] sub \<longleftrightarrow> sub = []"
| "Contains (c # cs) sub \<longleftrightarrow> prefix sub (c # cs) \<or> Contains cs sub"

text \<open>\<^verbatim>\<open>_scrubKeywords = [][]byte{[]byte("env"), []byte("Environment")}\<close>\<close>

definition scrubKeywords :: "bytes list" where
  "scrubKeywords = [''env'', ''Environment'']"

fun hasKeywords_loop :: "bytes \<Rightarrow> bytes list \<Rightarrow> bool" where
  "hasKeywords_loop b [] = False"
| "hasKeywords_loop b (bb # rest) = (if Contains b bb then True else hasKeywords_loop b rest)"

definition hasKeywords :: "bytes \<Rightarrow> bool" where
  "hasKeywords b = hasKeywords_loop b scrubKeywords"

section \<open>The JSON library the package calls\<close>

text \<open>
  \<^verbatim>\<open>json.Valid\<close>, \<^verbatim>\<open>json.Unmarshal\<close> and \<^verbatim>\<open>json.Encoder\<close> belong to Go's
  \<^verbatim>\<open>encoding/json\<close>, not to the package. They are modelled here by what they do to bytes:
  the grammar the scanner accepts, the strings the decoder produces (escapes resolved,
  malformed UTF-8 replaced by U+FFFD), and the text the encoder writes (keys of a map
  sorted, its own escaping of strings, a newline after the value).

  One thing is left out. Go decodes a number met under \<^verbatim>\<open>interface{}\<close> to a
  \<^verbatim>\<open>float64\<close> and prints it back in its shortest form; the model keeps the literal as it
  was written. So the spelling of a number in the output, and the error Go reports for
  a literal outside the range of \<^verbatim>\<open>float64\<close>, are outside the model.
\<close>

datatype json =
    JNull
  | JBool bool
  | JNum string
  | JStr string
  | JArr "json list"
  | JObj "(string \<times> json) list"

subsection \<open>Scanning\<close>

definition is_space :: "char \<Rightarrow> bool" where
  "is_space c \<longleftrightarrow> c = CHR '' '' \<or> c = CHR 0x09 \<or> c = CHR 0x0D \<or> c = CHR 0x0A"

definition skip_ws :: "bytes \<Rightarrow> bytes" where
  "skip_ws = dropWhile is_space"

definition is_digit :: "char \<Rightarrow> bool" where
  "is_digit c \<longleftrightarrow> CHR ''0'' \<le> c \<and> c \<le> CHR ''9''"

definition hex_val :: "char \<Rightarrow> nat option" where
  "hex_val c =
     (if CHR ''0'' \<le> c \<and> c \<le> CHR ''9'' then Some (of_char c - 48)
      else if CHR ''a'' \<le> c \<and> c \<le> CHR ''f'' then Some (of_char c - 87)
      else if CHR ''A'' \<le> c \<and> c \<le> CHR ''F'' then Some (of_char c - 55)
      else None)"

text \<open>
  \<^verbatim>\<open>getu4\<close>: the code unit of a \<^verbatim>\<open>\uXXXX\<close> escape at the head of the input, if one
  stands there.
\<close>

fun getu4 :: "bytes \<Rightarrow> nat option" where
  "getu4 (b # u # h1 # h2 # h3 # h4 # rest) =
     (if b = CHR 0x5C \<and> u = CHR ''u'' then
        (case hex_val h1 of None \<Rightarrow> None | Some x1 \<Rightarrow>
        (case hex_val h2 of None \<Rightarrow> None | Some x2 \<Rightarrow>
        (case hex_val h3 of None \<Rightarrow> None | Some x3 \<Rightarrow>
        (case hex_val h4 of None \<Rightarrow> None | Some x4 \<Rightarrow>
           Some (((x1 * 16 + x2) * 16 + x3) * 16 + x4)))))
      else None)"
| "getu4 cs = None"

text \<open>\<^verbatim>\<open>utf8.EncodeRune\<close>; a surrogate or a value past U+10FFFF becomes U+FFFD.\<close>

definition RuneError :: bytes where
  "RuneError = [CHR 0xEF, CHR 0xBF, CHR 0xBD]"

definition EncodeRune :: "nat \<Rightarrow> bytes" where
  "EncodeRune r =
     (if r < 0x80 then [char_of r]
      else if r < 0x800 then [char_of (0xC0 + r div 64), char_of (0x80 + r mod 64)]
      else if 0xD800 \<le> r \<and> r < 0xE000 then RuneError
      else if r < 0x10000 then
        [char_of (0xE0 + r div 4096), char_of (0x80 + r div 64 mod 64), char_of (0x80 + r mod 64)]
      else if r < 0x110000 then
        [char_of (0xF0 + r div 262144), char_of (0x80 + r div 4096 mod 64),
         char_of (0x80 + r div 64 mod 64), char_of (0x80 + r mod 64)]
      else RuneError)"

text \<open>
  \<^verbatim>\<open>utf8.DecodeRune\<close>, as far as the library uses it: the number of bytes of the
  well-formed UTF-8 sequence at the head of the input (2, 3 or 4), or 1 when the head
  is not one (Go then yields \<^verbatim>\<open>RuneError\<close> of width 1). Only called on a head byte of
  0x80 and above.
\<close>

definition cont :: "char \<Rightarrow> bool" where
  "cont c \<longleftrightarrow> CHR 0x80 \<le> c \<and> c \<le> CHR 0xBF"

fun rune_size :: "bytes \<Rightarrow> nat" where
  "rune_size [] = 1"
| "rune_size [p0] = 1"
| "rune_size (p0 # b1 # rest) =
     (if CHR 0xC2 \<le> p0 \<and> p0 \<le> CHR 0xDF then (if cont b1 then 2 else 1)
      else if CHR 0xE0 \<le> p0 \<and> p0 \<le> CHR 0xEF then
        (if (if p0 = CHR 0xE0 then CHR 0xA0 \<le> b1 \<and> b1 \<le> CHR 0xBF
             else if p0 = CHR 0xED then CHR 0x80 \<le> b1 \<and> b1 \<le> CHR 0x9F
             else cont b1)
         then (case rest of b2 # rest' \<Rightarrow> if cont b2 then 3 else 1 | [] \<Rightarrow> 1)
         else 1)
      else if CHR 0xF0 \<le> p0 \<and> p0 \<le> CHR 0xF4 then
        (if (if p0 = CHR 0xF0 then CHR 0x90 \<le> b1 \<and> b1 \<le> CHR 0xBF
             else if p0 = CHR 0xF4 then CHR 0x80 \<le> b1 \<and> b1 \<le> CHR 0x8F
             else cont b1)
         then (case rest of b2 # b3 # rest' \<Rightarrow> if cont b2 \<and> cont b3 then 4 else 1 | _ \<Rightarrow> 1)
         else 1)
      else 1)"

text \<open>The characters a backslash may introduce, other than \<^verbatim>\<open>u\<close>.\<close>

definition unescape :: "char \<Rightarrow> char option" where
  "unescape e =
     (if e = CHR 0x22 \<or> e = CHR 0x5C \<or> e = CHR ''/'' then Some e
      else if e = CHR ''b'' then Some (CHR 0x08)
      else if e = CHR ''f'' then Some (CHR 0x0C)
      else if e = CHR ''n'' then Some (CHR 0x0A)
      else if e = CHR ''r'' then Some (CHR 0x0D)
      else if e = CHR ''t'' then Some (CHR 0x09)
      else None)"

definition emit :: "bytes \<Rightarrow> (string \<times> bytes) option \<Rightarrow> (string \<times> bytes) option" where
  "emit out res = (case res of None \<Rightarrow> None | Some (s, r) \<Rightarrow> Some (out @ s, r))"

text \<open>
  A string literal, read from the byte after its opening quote: the decoded string and
  the input after the closing quote. The scanner refuses a raw control character and a
  malformed escape; the decoder (\<^verbatim>\<open>unquote\<close>) resolves escapes, joins a surrogate pair,
  and writes U+FFFD for a lone surrogate and for each byte that starts no well-formed
  UTF-8 sequence.
\<close>

fun lex_string :: "bytes \<Rightarrow> (string \<times> bytes) option" where
  "lex_string [] = None"
| "lex_string (c # cs) =
     (if c = CHR 0x22 then Some ([], cs)
      else if c = CHR 0x5C then
        (case cs of
           [] \<Rightarrow> None
         | e # r \<Rightarrow>
             if e = CHR ''u'' then
               (case getu4 (c # cs) of
                  None \<Rightarrow> None
                | Some rr \<Rightarrow>
                    if 0xD800 \<le> rr \<and> rr < 0xE000 then
                      (case getu4 (drop 4 r) of
                         None \<Rightarrow> emit RuneError (lex_string (drop 4 r))
                       | Some rr1 \<Rightarrow>
                           if rr < 0xDC00 \<and> 0xDC00 \<le> rr1 \<and> rr1 < 0xE000
                           then emit (EncodeRune ((rr - 0xD800) * 1024 + (rr1 - 0xDC00) + 0x10000))
                                  (lex_string (drop 10 r))
                           else emit RuneError (lex_string (drop 4 r)))
                    else emit (EncodeRune rr) (lex_string (drop 4 r)))
             else
               (case unescape e of
                  None \<Rightarrow> None
                | Some d \<Rightarrow> emit [d] (lex_string r)))
      else if c < CHR 0x20 then None
      else if c < CHR 0x80 then emit [c] (lex_string cs)
      else if rune_size (c # cs) = 1 then emit RuneError (lex_string cs)
      else emit (take (rune_size (c # cs)) (c # cs)) (lex_string (drop (rune_size (c # cs) - 1) cs)))"

text \<open>
  A number literal: an optional minus, \<^verbatim>\<open>0\<close> or a digit string without leading zero,
  an optional fraction, an optional exponent. It ends at the first byte that cannot
  continue it.
\<close>

definition lex_exp :: "bytes \<Rightarrow> bytes \<Rightarrow> (string \<times> bytes) option" where
  "lex_exp acc cs =
     (case cs of
        [] \<Rightarrow> Some (acc, cs)
      | e # r \<Rightarrow>
          if e = CHR ''e'' \<or> e = CHR ''E'' then
            (let (sg, r') = (case r of
                               [] \<Rightarrow> ([], r)
                             | s # r1 \<Rightarrow> if s = CHR ''+'' \<or> s = CHR ''-'' then ([s], r1) else ([], r))
             in if takeWhile is_digit r' = [] then None
                else Some (acc @ e # sg @ takeWhile is_digit r', dropWhile is_digit r'))
          else Some (acc, cs))"

definition lex_frac :: "bytes \<Rightarrow> bytes \<Rightarrow> (string \<times> bytes) option" where
  "lex_frac acc cs =
     (case cs of
        [] \<Rightarrow> Some (acc, cs)
      | p # r \<Rightarrow>
          if p = CHR ''.'' then
            (if takeWhile is_digit r = [] then None
             else lex_exp (acc @ p # takeWhile is_digit r) (dropWhile is_digit r))
          else lex_exp acc cs)"

definition lex_int :: "bytes \<Rightarrow> bytes \<Rightarrow> (string \<times> bytes) option" where
  "lex_int acc cs =
     (case cs of
        [] \<Rightarrow> None
      | c # r \<Rightarrow>
          if c = CHR ''0'' then lex_frac (acc @ [c]) r
          else if is_digit c then lex_frac (acc @ c # takeWhile is_digit r) (dropWhile is_digit r)
          else None)"

definition lex_number :: "bytes \<Rightarrow> (string \<times> bytes) option" where
  "lex_number cs =
     (case cs of
        [] \<Rightarrow> None
      | c # r \<Rightarrow> if c = CHR ''-'' then lex_int [c] r else lex_int [] cs)"

definition lex_literal :: "bytes \<Rightarrow> json \<Rightarrow> bytes \<Rightarrow> (json \<times> bytes) option" where
  "lex_literal word v cs = (if prefix word cs then Some (v, drop (length word) cs) else None)"

subsection \<open>Parsing\<close>

text \<open>
  The elements of an array after its opening bracket, and the members of an object
  after its opening brace, read with a parser \<open>p\<close> for the values one level further in.
  The input starts at the first element (at the first key). A value parser never
  returns more input than it was given (\<open>parse_value_shorter\<close> below); the test on the
  lengths makes the recursion well-founded whatever \<open>p\<close> is.
\<close>

lemma emit_shorter: "emit out res = Some (s, r) \<Longrightarrow> \<exists>s'. res = Some (s', r)"
  by (auto simp: emit_def split: option.splits)

lemma lex_string_shorter: "lex_string cs = Some (s, r) \<Longrightarrow> length r < length cs"
proof (induction cs arbitrary: s r rule: lex_string.induct)
  case 1
  then show ?case by simp
next
  case (2 c cs)
  show ?case
    using "2.prems" "2.IH"
    by (fastforce simp: Let_def split: if_splits list.splits option.splits dest!: emit_shorter)
qed

function elements :: "(bytes \<Rightarrow> (json \<times> bytes) option) \<Rightarrow> bytes \<Rightarrow> (json list \<times> bytes) option" where
  "elements p cs =
     (case p cs of
        None \<Rightarrow> None
      | Some (v, r) \<Rightarrow>
          if length r \<le> length cs then
            (case skip_ws r of
               [] \<Rightarrow> None
             | c # r1 \<Rightarrow>
                 if c = CHR '','' then
                   (case elements p (skip_ws r1) of
                      None \<Rightarrow> None
                    | Some (vs, r2) \<Rightarrow> Some (v # vs, r2))
                 else if c = CHR '']'' then Some ([v], r1)
                 else None)
          else None)"
  by pat_completeness auto

lemma skip_ws_length: "length (skip_ws cs) \<le> length cs"
  by (simp add: skip_ws_def length_dropWhile_le)

lemma skip_ws_Cons_shorter: "skip_ws r = c # r1 \<Longrightarrow> length r1 < length r"
  using skip_ws_length [of r] by simp

termination elements
proof (relation "measure (\<lambda>(p, cs). length cs)", goal_cases)
  case 1
  show ?case by simp
next
  case (2 p cs x2 v r c r1)
  have "length (skip_ws r1) \<le> length r1" by (rule skip_ws_length)
  moreover have "length r1 < length r" using 2 by (auto dest: skip_ws_Cons_shorter)
  ultimately show ?case using 2 by simp
qed

function members :: "(bytes \<Rightarrow> (json \<times> bytes) option) \<Rightarrow> bytes \<Rightarrow> ((string \<times> json) list \<times> bytes) option" where
  "members p cs =
     (case cs of
        [] \<Rightarrow> None
      | q # r \<Rightarrow>
          if q = CHR 0x22 then
            (case lex_string r of
               None \<Rightarrow> None
             | Some (k, r1) \<Rightarrow>
                 (case skip_ws r1 of
                    [] \<Rightarrow> None
                  | c # r2 \<Rightarrow>
                      if c = CHR '':'' then
                        (case p (skip_ws r2) of
                           None \<Rightarrow> None
                         | Some (v, r3) \<Rightarrow>
                             if length r3 \<le> length (skip_ws r2) then
                               (case skip_ws r3 of
                                  [] \<Rightarrow> None
                                | c3 # r4 \<Rightarrow>
                                    if c3 = CHR '','' then
                                      (case members p (skip_ws r4) of
                                         None \<Rightarrow> None
                                       | Some (kvs, r5) \<Rightarrow> Some ((k, v) # kvs, r5))
                                    else if c3 = CHR ''}'' then Some ([(k, v)], r4)
                                    else None)
                             else None)
                      else None))
          else None)"
  by pat_completeness auto

termination members
proof (relation "measure (\<lambda>(p, cs). length cs)", goal_cases)
  case 1
  show ?case by simp
next
  case (2 p cs q r x2 k r1 c r2 x2a v r3 c3 r4)
  have "length (skip_ws r4) \<le> length r4" by (rule skip_ws_length)
  moreover have "length r4 < length r3" using 2 by (auto dest: skip_ws_Cons_shorter)
  moreover have "length (skip_ws r2) \<le> length r2" by (rule skip_ws_length)
  moreover have "length r2 < length r1" using 2 by (auto dest: skip_ws_Cons_shorter)
  moreover have "length r1 < length r" using 2 by (auto dest: lex_string_shorter)
  ultimately show ?case using 2 by simp
qed

declare elements.simps [simp del] members.simps [simp del]

text \<open>
  One value, read from its first byte, \<open>d\<close> more levels of nesting being allowed.
  The scanner refuses a container opened past \<^verbatim>\<open>maxNestingDepth = 10000\<close>.
\<close>

fun parse_value :: "nat \<Rightarrow> bytes \<Rightarrow> (json \<times> bytes) option" where
  "parse_value d cs =
     (case cs of
        [] \<Rightarrow> None
      | c # r \<Rightarrow>
          if c = CHR ''{'' then
            (if d = 0 then None
             else
               (case skip_ws r of
                  [] \<Rightarrow> None
                | c1 # r1 \<Rightarrow>
                    if c1 = CHR ''}'' then Some (JObj [], r1)
                    else
                      (case members (\<lambda>x. parse_value (d - 1) x) (c1 # r1) of
                         None \<Rightarrow> None
                       | Some (kvs, r2) \<Rightarrow> Some (JObj kvs, r2))))
          else if c = CHR ''['' then
            (if d = 0 then None
             else
               (case skip_ws r of
                  [] \<Rightarrow> None
                | c1 # r1 \<Rightarrow>
                    if c1 = CHR '']'' then Some (JArr [], r1)
                    else
                      (case elements (\<lambda>x. parse_value (d - 1) x) (c1 # r1) of
                         None \<Rightarrow> None
                       | Some (vs, r2) \<Rightarrow> Some (JArr vs, r2))))
          else if c = CHR 0x22 then
            (case lex_string r of
               None \<Rightarrow> None
             | Some (s, r1) \<Rightarrow> Some (JStr s, r1))
          else if c = CHR ''t'' then lex_literal ''true'' (JBool True) cs
          else if c = CHR ''f'' then lex_literal ''false'' (JBool False) cs
          else if c = CHR ''n'' then lex_literal ''null'' JNull cs
          else if c = CHR ''-'' \<or> is_digit c then
            (case lex_number cs of
               None \<Rightarrow> None
             | Some (l, r1) \<Rightarrow> Some (JNum l, r1))
          else None)"

declare parse_value.simps [simp del]

definition maxNestingDepth :: nat where
  "maxNestingDepth = 10000"

text \<open>A whole document: white space, one value, white space, end of input.\<close>

definition parse :: "bytes \<Rightarrow> json option" where
  "parse b =
     (case parse_value maxNestingDepth (skip_ws b) of
        None \<Rightarrow> None
      | Some (v, r) \<Rightarrow> if skip_ws r = [] then Some v else None)"

text \<open>\<^verbatim>\<open>json.Valid\<close>\<close>

definition Valid :: "bytes \<Rightarrow> bool" where
  "Valid b \<longleftrightarrow> parse b \<noteq> None"

subsection \<open>Go values\<close>

text \<open>
  The parser keeps the members of an object as they are written, in order and with
  repetitions. A Go \<^verbatim>\<open>map[string]T\<close> has each key once and no order, and the encoder
  writes its keys sorted: a map is kept here as an association list with its keys
  increasing. \<open>map_set k v m\<close> is the assignment \<^verbatim>\<open>m[k] = v\<close>, \<open>map_of m k\<close> the
  lookup \<^verbatim>\<open>v, ok := m[k]\<close>.
\<close>

fun map_set :: "string \<Rightarrow> 'v \<Rightarrow> (string \<times> 'v) list \<Rightarrow> (string \<times> 'v) list" where
  "map_set k v [] = [(k, v)]"
| "map_set k v ((k', v') # m) =
     (if k = k' then (k, v) # m
      else if k < k' then (k, v) # (k', v') # m
      else (k', v') # map_set k v m)"

text \<open>
  \<^verbatim>\<open>type genMap = map[string]interface{}\<close>. The values the decoder stores under
  \<^verbatim>\<open>interface{}\<close> are \<^verbatim>\<open>nil\<close>, \<^verbatim>\<open>bool\<close>, \<^verbatim>\<open>float64\<close>, \<^verbatim>\<open>string\<close>,
  \<^verbatim>\<open>[]interface{}\<close> and \<^verbatim>\<open>map[string]interface{}\<close>: again a \<open>json\<close> tree, each
  object of which is a map. A repeated key keeps its last value.
\<close>

type_synonym genMap = "(string \<times> json) list"

fun store_members :: "(string \<times> 'v) list \<Rightarrow> (string \<times> 'v) list \<Rightarrow> (string \<times> 'v) list" where
  "store_members m [] = m"
| "store_members m ((k, v) # kvs) = store_members (map_set k v m) kvs"

fun to_value :: "json \<Rightarrow> json" where
  "to_value (JArr vs) = JArr (map to_value vs)"
| "to_value (JObj kvs) = JObj (store_members [] (map (\<lambda>kv. (fst kv, to_value (snd kv))) kvs))"
| "to_value v = v"

subsection \<open>Encoding\<close>

definition hex :: string where
  "hex = ''0123456789abcdef''"

text \<open>
  The bytes below 0x80 the encoder copies as they are: \<^verbatim>\<open>htmlSafeSet[b] ||
  (!escapeHTML && safeSet[b])\<close>.
\<close>

definition safe :: "bool \<Rightarrow> char \<Rightarrow> bool" where
  "safe escapeHTML b \<longleftrightarrow>
     CHR 0x20 \<le> b \<and> b \<noteq> CHR 0x22 \<and> b \<noteq> CHR 0x5C \<and>
     \<not> (escapeHTML \<and> (b = CHR ''<'' \<or> b = CHR ''>'' \<or> b = CHR ''&''))"

definition escape_byte :: "char \<Rightarrow> bytes" where
  "escape_byte b =
     (if b = CHR 0x5C \<or> b = CHR 0x22 then [CHR 0x5C, b]
      else if b = CHR 0x0A then [CHR 0x5C, CHR ''n'']
      else if b = CHR 0x0D then [CHR 0x5C, CHR ''r'']
      else if b = CHR 0x09 then [CHR 0x5C, CHR ''t'']
      else [CHR 0x5C, CHR ''u'', CHR ''0'', CHR ''0'',
            hex ! (of_char b div 16), hex ! (of_char b mod 16)])"

definition LINE_SEPARATOR :: bytes where
  "LINE_SEPARATOR = [CHR 0xE2, CHR 0x80, CHR 0xA8]"

definition PARAGRAPH_SEPARATOR :: bytes where
  "PARAGRAPH_SEPARATOR = [CHR 0xE2, CHR 0x80, CHR 0xA9]"

text \<open>
  The loop of the encoder over a string: an unsafe byte is escaped, a byte that starts
  no well-formed UTF-8 sequence is written as \<^verbatim>\<open>\ufffd\<close>, U+2028 and U+2029 are
  always escaped, every other sequence is copied.
\<close>

fun string_body :: "bool \<Rightarrow> bytes \<Rightarrow> bytes" where
  "string_body escapeHTML [] = []"
| "string_body escapeHTML (b # src) =
     (if b < CHR 0x80 then
        (if safe escapeHTML b then [b] else escape_byte b) @ string_body escapeHTML src
      else if rune_size (b # src) = 1 then
        CHR 0x5C # ''ufffd'' @ string_body escapeHTML src
      else if take 3 (b # src) = LINE_SEPARATOR then
        CHR 0x5C # ''u2028'' @ string_body escapeHTML (drop 2 src)
      else if take 3 (b # src) = PARAGRAPH_SEPARATOR then
        CHR 0x5C # ''u2029'' @ string_body escapeHTML (drop 2 src)
      else
        take (rune_size (b # src)) (b # src) @
        string_body escapeHTML (drop (rune_size (b # src) - 1) src))"

definition appendString :: "bytes \<Rightarrow> bytes \<Rightarrow> bool \<Rightarrow> bytes" where
  "appendString dst src escapeHTML = dst @ [CHR 0x22] @ string_body escapeHTML src @ [CHR 0x22]"

fun commas :: "bytes list \<Rightarrow> bytes" where
  "commas [] = []"
| "commas [x] = x"
| "commas (x # y # ys) = x @ CHR '','' # commas (y # ys)"

text \<open>The compact text of a value; the keys of a map come in the order of the list.\<close>

fun marshal :: "bool \<Rightarrow> json \<Rightarrow> bytes" where
  "marshal escapeHTML JNull = ''null''"
| "marshal escapeHTML (JBool b) = (if b then ''true'' else ''false'')"
| "marshal escapeHTML (JNum l) = l"
| "marshal escapeHTML (JStr s) = appendString [] s escapeHTML"
| "marshal escapeHTML (JArr vs) = CHR ''['' # commas (map (marshal escapeHTML) vs) @ '']''"
| "marshal escapeHTML (JObj kvs) =
     CHR ''{'' #
     commas (map (\<lambda>kv. appendString [] (fst kv) escapeHTML @ CHR '':'' # marshal escapeHTML (snd kv)) kvs)
     @ ''}''"

declare marshal.simps [simp del]

section \<open>Errors and decoding\<close>

text \<open>
  \<^verbatim>\<open>ErrUnknownType\<close> is the one error the package declares; the other two are the
  library's (\<^verbatim>\<open>*json.SyntaxError\<close>, \<^verbatim>\<open>*json.UnmarshalTypeError\<close>). A Go function
  returning \<^verbatim>\<open>(T, error)\<close> returns a pair here, the error \<open>None\<close> for \<^verbatim>\<open>nil\<close>.
\<close>

datatype error = ErrUnknownType | SyntaxError | UnmarshalTypeError

text \<open>
  \<^verbatim>\<open>(*Encoder).Encode\<close> with \<^verbatim>\<open>SetEscapeHTML(escapeHTML)\<close>: the text of the value and a
  newline are written to the buffer. It reports an error for a value with no JSON
  text (a channel, a function, a NaN); a \<open>json\<close> tree has none of those.
\<close>

definition Encoder_Encode :: "bool \<Rightarrow> bytes \<Rightarrow> json \<Rightarrow> bytes \<times> error option" where
  "Encoder_Encode escapeHTML buf v = (buf @ marshal escapeHTML v @ [CHR 0x0A], None)"

text \<open>
  \<^verbatim>\<open>json.Unmarshal(b, &m)\<close> for a \<^verbatim>\<open>genMap\<close>: an object is stored member by member
  into the map given, \<^verbatim>\<open>null\<close> sets the map to \<^verbatim>\<open>nil\<close>, any other value is a type
  error and leaves the map alone.
\<close>

definition Unmarshal_genMap :: "bytes \<Rightarrow> genMap \<Rightarrow> genMap \<times> error option" where
  "Unmarshal_genMap b m =
     (case parse b of
        None \<Rightarrow> (m, Some SyntaxError)
      | Some v \<Rightarrow>
          (case v of
             JObj kvs \<Rightarrow> (store_members m (map (\<lambda>kv. (fst kv, to_value (snd kv))) kvs), None)
           | JNull \<Rightarrow> ([], None)
           | _ \<Rightarrow> (m, Some UnmarshalTypeError)))"

text \<open>
  Modelled from the spec: the type \<^verbatim>\<open>hcsschema.ProcessParameters\<close> is declared in a
  package that is not among the sources. The spec describes it as a structured object
  with a field for the process environment, a mapping from string to string, and shows
  the fields \<^verbatim>\<open>CommandLine\<close> (a string) and \<^verbatim>\<open>Environment\<close>; it is taken to be the Go
  struct of these two fields, under these names, without \<^verbatim>\<open>omitempty\<close>. A \<^verbatim>\<open>nil\<close>
  map and an empty one are both the empty list: the environment is assigned before
  the struct is ever encoded.
\<close>

record ProcessParameters =
  CommandLine :: string
  Environment :: "(string \<times> string) list"

definition ProcessParameters_zero :: ProcessParameters where
  "ProcessParameters_zero = \<lparr>CommandLine = [], Environment = []\<rparr>"

text \<open>
  The decoder finds the field of a key by its name, or failing that by its name
  without regard to the case of letters.
\<close>

definition fold_byte :: "char \<Rightarrow> nat" where
  "fold_byte c = (if CHR ''A'' \<le> c \<and> c \<le> CHR ''Z'' then of_char c + 32 else of_char c)"

definition equalFold :: "string \<Rightarrow> string \<Rightarrow> bool" where
  "equalFold s t \<longleftrightarrow> map fold_byte s = map fold_byte t"

definition saveError :: "error option \<Rightarrow> error \<Rightarrow> error option" where
  "saveError saved err = (case saved of None \<Rightarrow> Some err | Some e \<Rightarrow> Some e)"

text \<open>
  One member of an object stored into a \<^verbatim>\<open>map[string]string\<close>: a string is stored,
  \<^verbatim>\<open>null\<close> stores the empty string, anything else is a type error (the first error
  is kept and decoding goes on).
\<close>

fun store_strings :: "(string \<times> string) list \<times> error option \<Rightarrow> (string \<times> json) list \<Rightarrow>
    (string \<times> string) list \<times> error option" where
  "store_strings acc [] = acc"
| "store_strings (m, saved) ((k, v) # kvs) =
     (case v of
        JStr s \<Rightarrow> store_strings (map_set k s m, saved) kvs
      | JNull \<Rightarrow> store_strings (map_set k [] m, saved) kvs
      | _ \<Rightarrow> store_strings (map_set k [] m, saveError saved UnmarshalTypeError) kvs)"

text \<open>The members of an object stored into the struct, in the order they are written.\<close>

fun store_fields :: "ProcessParameters \<times> error option \<Rightarrow> (string \<times> json) list \<Rightarrow>
    ProcessParameters \<times> error option" where
  "store_fields acc [] = acc"
| "store_fields (pp, saved) ((key, v) # kvs) =
     (if equalFold ''CommandLine'' key then
        (case v of
           JStr s \<Rightarrow> store_fields (pp\<lparr>CommandLine := s\<rparr>, saved) kvs
         | JNull \<Rightarrow> store_fields (pp, saved) kvs
         | _ \<Rightarrow> store_fields (pp, saveError saved UnmarshalTypeError) kvs)
      else if equalFold ''Environment'' key then
        (case v of
           JObj ms \<Rightarrow>
             (case store_strings (Environment pp, saved) ms of
                (env, saved') \<Rightarrow> store_fields (pp\<lparr>Environment := env\<rparr>, saved') kvs)
         | JNull \<Rightarrow> store_fields (pp\<lparr>Environment := []\<rparr>, saved) kvs
         | _ \<Rightarrow> store_fields (pp, saveError saved UnmarshalTypeError) kvs)
      else store_fields (pp, saved) kvs)"

text \<open>\<^verbatim>\<open>json.Unmarshal(b, &pp)\<close> for a \<^verbatim>\<open>ProcessParameters\<close>.\<close>

definition Unmarshal_ProcessParameters :: "bytes \<Rightarrow> ProcessParameters \<Rightarrow> ProcessParameters \<times> error option" where
  "Unmarshal_ProcessParameters b pp =
     (case parse b of
        None \<Rightarrow> (pp, Some SyntaxError)
      | Some v \<Rightarrow>
          (case v of
             JObj kvs \<Rightarrow> store_fields (pp, None) kvs
           | JNull \<Rightarrow> (pp, None)
           | _ \<Rightarrow> (pp, Some UnmarshalTypeError)))"

text \<open>The value the encoder sees for a \<^verbatim>\<open>ProcessParameters\<close>: its fields in order.\<close>

definition ProcessParameters_value :: "ProcessParameters \<Rightarrow> json" where
  "ProcessParameters_value pp =
     JObj [(''CommandLine'', JStr (CommandLine pp)),
           (''Environment'', JObj (map (\<lambda>kv. (fst kv, JStr (snd kv))) (Environment pp)))]"

section \<open>The package\<close>

text \<open>
  \<^verbatim>\<open>func encode(buf *bytes.Buffer, v interface{}) error\<close>: the buffer is passed in and
  returned.
\<close>

definition encode :: "bytes \<Rightarrow> json \<Rightarrow> bytes \<times> error option" where
  "encode buf v =
     (case Encoder_Encode False buf v of
        (buf', Some err) \<Rightarrow> (buf', Some err)
      | (buf', None) \<Rightarrow> (buf', None))"

definition isRequestBase :: "genMap \<Rightarrow> bool" where
  "isRequestBase m =
     (let a = (map_of m ''ActivityId'' \<noteq> None);
          c = (map_of m ''ContainerId'' \<noteq> None)
      in a \<and> c)"

text \<open>
  \<^verbatim>\<open>index\<close>: the value under \<open>s\<close> asserted to be a \<^verbatim>\<open>genMap\<close>. A failed assertion
  yields the \<^verbatim>\<open>nil\<close> map, a missing key the map itself, both with \<^verbatim>\<open>false\<close>.
\<close>

definition index :: "genMap \<Rightarrow> string \<Rightarrow> genMap \<times> bool" where
  "index m s =
     (case map_of m s of
        Some v \<Rightarrow> (case v of JObj mm \<Rightarrow> (mm, True) | _ \<Rightarrow> ([], False))
      | None \<Rightarrow> (m, False))"

text \<open>\<^verbatim>\<open>ScrubProcessParameters\<close>; \<open>g\<close> is the value of \<^verbatim>\<open>_scrub\<close>.\<close>

definition ScrubProcessParameters :: "int \<Rightarrow> string \<Rightarrow> string \<times> error option" where
  "ScrubProcessParameters g s =
     (let b = s in
      if \<not> IsScrubbingEnabled g \<or> \<not> hasKeywords b \<or> \<not> Valid b then (s, None)
      else
        (case Unmarshal_ProcessParameters b ProcessParameters_zero of
           (pp, Some err) \<Rightarrow> ([], Some err)
         | (pp, None) \<Rightarrow>
             (let pp' = pp\<lparr>Environment := [(ScrubbedReplacement, ScrubbedReplacement)]\<rparr> in
              case encode [] (ProcessParameters_value pp') of
                (buf, Some err) \<Rightarrow> ([], Some err)
              | (buf, None) \<Rightarrow> (buf, None))))"

text \<open>
  The two scrubbers change the map they are given and return an error. Go's maps are
  references: \<^verbatim>\<open>index\<close> hands out the nested map itself, so the assignment to
  \<^verbatim>\<open>m["env"]\<close> is seen from the top. A decoded tree shares nothing, so the model
  rebuilds the path down to the changed map and returns the new top map with the error.
\<close>

definition scrubLinuxHostedSystem :: "genMap \<Rightarrow> genMap \<times> error option" where
  "scrubLinuxHostedSystem m =
     (if \<not> isRequestBase m then (m, Some ErrUnknownType)
      else
        (case index m ''ContainerConfig'' of
           (cc, True) \<Rightarrow>
             (case index cc ''OciSpecification'' of
                (oci, True) \<Rightarrow>
                  (case index oci ''process'' of
                     (pr, True) \<Rightarrow>
                       (if map_of pr ''env'' \<noteq> None then
                          (map_set ''ContainerConfig''
                             (JObj (map_set ''OciSpecification''
                                (JObj (map_set ''process''
                                   (JObj (map_set ''env'' (JArr [JStr ScrubbedReplacement]) pr))
                                   oci))
                                cc))
                             m,
                           None)
                        else (m, Some ErrUnknownType))
                   | (pr, False) \<Rightarrow> (m, Some ErrUnknownType))
              | (oci, False) \<Rightarrow> (m, Some ErrUnknownType))
         | (cc, False) \<Rightarrow> (m, Some ErrUnknownType)))"

definition scrubExecuteProcess :: "int \<Rightarrow> genMap \<Rightarrow> genMap \<times> error option" where
  "scrubExecuteProcess g m =
     (if \<not> isRequestBase m then (m, Some ErrUnknownType)
      else
        (case index m ''Settings'' of
           (st, True) \<Rightarrow>
             (case map_of st ''ProcessParameters'' of
                Some ss \<Rightarrow>
                  (case ss of
                     JStr s \<Rightarrow>
                       (case ScrubProcessParameters g s of
                          (s', Some err) \<Rightarrow> (m, Some err)
                        | (s', None) \<Rightarrow>
                            (map_set ''Settings'' (JObj (map_set ''ProcessParameters'' (JStr s') st)) m,
                             None))
                   | _ \<Rightarrow> (m, Some ErrUnknownType))
              | None \<Rightarrow> (m, Some ErrUnknownType))
         | (st, False) \<Rightarrow> (m, Some ErrUnknownType)))"

text \<open>\<^verbatim>\<open>scrubBytes\<close>; \<^verbatim>\<open>make(genMap)\<close> is the empty map, a new buffer is empty.\<close>

definition scrubBytes :: "int \<Rightarrow> bytes \<Rightarrow> (genMap \<Rightarrow> genMap \<times> error option) \<Rightarrow> bytes \<times> error option" where
  "scrubBytes g b scrub =
     (if \<not> IsScrubbingEnabled g \<or> \<not> hasKeywords b \<or> \<not> Valid b then (b, None)
      else
        (case Unmarshal_genMap b [] of
           (m, Some err) \<Rightarrow> ([], Some err)
         | (m, None) \<Rightarrow>
             (case scrub m of
                (m', Some err) \<Rightarrow> ([], Some err)
              | (m', None) \<Rightarrow>
                  (case encode [] (JObj m') of
                     (buf, Some err) \<Rightarrow> ([], Some err)
                   | (buf, None) \<Rightarrow> (buf, None)))))"

definition ScrubBridgeCreate :: "int \<Rightarrow> bytes \<Rightarrow> bytes \<times> error option" where
  "ScrubBridgeCreate g b = scrubBytes g b scrubLinuxHostedSystem"

definition ScrubBridgeExecProcess :: "int \<Rightarrow> bytes \<Rightarrow> bytes \<times> error option" where
  "ScrubBridgeExecProcess g b = scrubBytes g b (scrubExecuteProcess g)"


section \<open>Facts about the library model\<close>

lemma encode_eq: "encode buf v = (buf @ marshal False v @ [CHR 0x0A], None)"
  by (simp add: encode_def Encoder_Encode_def)

lemma Contains_iff_sublist: "Contains b sub \<longleftrightarrow> sublist sub b"
  by (induction b) (auto simp: sublist_Cons_right)

lemma hasKeywords_iff: "hasKeywords b \<longleftrightarrow> sublist ''env'' b \<or> sublist ''Environment'' b"
  by (simp add: hasKeywords_def scrubKeywords_def Contains_iff_sublist)

lemma map_of_map_set: "map_of (map_set k v m) = (map_of m)(k \<mapsto> v)"
  by (induction m) (auto simp: fun_eq_iff)

section \<open>The short-circuit\<close>

definition malformed_input :: bytes where
  \<open>malformed_input = ''{"env":''\<close>

text \<open>
  C4. Each of the three operations returns its input unchanged, with no error, when
  scrubbing is disabled, or neither \<^verbatim>\<open>env\<close> nor \<^verbatim>\<open>Environment\<close> occurs in the input as
  a contiguous run of bytes, or the input is not valid JSON; so malformed JSON that
  holds a keyword comes back as it is.
\<close>

theorem short_circuit_passthrough:
  assumes "\<not> IsScrubbingEnabled g \<or> (\<not> sublist ''env'' b \<and> \<not> sublist ''Environment'' b) \<or> \<not> Valid b"
  shows "ScrubProcessParameters g b = (b, None) \<and>
         ScrubBridgeCreate g b = (b, None) \<and>
         ScrubBridgeExecProcess g b = (b, None)"
  using assms
  by (auto simp: ScrubProcessParameters_def ScrubBridgeCreate_def ScrubBridgeExecProcess_def
      scrubBytes_def hasKeywords_iff)

theorem short_circuit_passthrough_witness:
  "IsScrubbingEnabled 1 \<and> sublist ''env'' malformed_input \<and> \<not> Valid malformed_input \<and>
   ScrubProcessParameters 1 malformed_input = (malformed_input, None) \<and>
   ScrubBridgeCreate 1 malformed_input = (malformed_input, None) \<and>
   ScrubBridgeExecProcess 1 malformed_input = (malformed_input, None)"
proof -
  have en: "IsScrubbingEnabled 1" by (simp add: IsScrubbingEnabled_def)
  have kw: "sublist ''env'' malformed_input"
    unfolding malformed_input_def Contains_iff_sublist [symmetric] by code_simp
  have inv: "\<not> Valid malformed_input"
    unfolding malformed_input_def by code_simp
  from inv have "\<not> IsScrubbingEnabled 1 \<or>
      (\<not> sublist ''env'' malformed_input \<and> \<not> sublist ''Environment'' malformed_input) \<or>
      \<not> Valid malformed_input" by simp
  from short_circuit_passthrough [OF this] en kw inv show ?thesis by simp
qed

section \<open>After the short-circuit\<close>

lemma scrubBytes_run:
  assumes "IsScrubbingEnabled g" "hasKeywords b" "Valid b"
  shows "scrubBytes g b scrub =
     (case Unmarshal_genMap b [] of
        (m, Some err) \<Rightarrow> ([], Some err)
      | (m, None) \<Rightarrow>
          (case scrub m of
             (m', Some err) \<Rightarrow> ([], Some err)
           | (m', None) \<Rightarrow> (marshal False (JObj m') @ [CHR 0x0A], None)))"
  using assms by (simp add: scrubBytes_def encode_eq split: prod.splits option.splits)

lemma ScrubProcessParameters_run:
  assumes "IsScrubbingEnabled g" "hasKeywords s" "Valid s"
  shows "ScrubProcessParameters g s =
     (case Unmarshal_ProcessParameters s ProcessParameters_zero of
        (pp, Some err) \<Rightarrow> ([], Some err)
      | (pp, None) \<Rightarrow>
          (marshal False
             (ProcessParameters_value (pp\<lparr>Environment := [(ScrubbedReplacement, ScrubbedReplacement)]\<rparr>))
           @ [CHR 0x0A], None))"
  using assms by (simp add: ScrubProcessParameters_def encode_eq split: prod.splits option.splits)

lemma index_object: "map_of m s = Some (JObj mm) \<Longrightarrow> index m s = (mm, True)"
  by (simp add: index_def)

lemma index_True_iff: "index m s = (mm, True) \<longleftrightarrow> map_of m s = Some (JObj mm)"
  by (auto simp: index_def split: option.splits json.splits)

lemma index_False_iff: "snd (index m s) = False \<longleftrightarrow> (\<forall>mm. map_of m s \<noteq> Some (JObj mm))"
  by (auto simp: index_def split: option.splits json.splits)

lemma isRequestBase_iff:
  "isRequestBase m \<longleftrightarrow> map_of m ''ActivityId'' \<noteq> None \<and> map_of m ''ContainerId'' \<noteq> None"
  by (simp add: isRequestBase_def)

subsection \<open>Container create\<close>

lemma scrubLinuxHostedSystem_found:
  assumes "isRequestBase m"
    and "map_of m ''ContainerConfig'' = Some (JObj cc)"
    and "map_of cc ''OciSpecification'' = Some (JObj oci)"
    and "map_of oci ''process'' = Some (JObj pr)"
    and "map_of pr ''env'' = Some old"
  shows "scrubLinuxHostedSystem m =
     (map_set ''ContainerConfig''
        (JObj (map_set ''OciSpecification''
           (JObj (map_set ''process''
              (JObj (map_set ''env'' (JArr [JStr ScrubbedReplacement]) pr)) oci)) cc)) m,
      None)"
  using assms by (simp add: scrubLinuxHostedSystem_def index_object)

lemma scrubLinuxHostedSystem_unknown:
  assumes "\<not> (\<exists>cc oci pr old.
      map_of m ''ContainerConfig'' = Some (JObj cc) \<and>
      map_of cc ''OciSpecification'' = Some (JObj oci) \<and>
      map_of oci ''process'' = Some (JObj pr) \<and>
      map_of pr ''env'' = Some old)"
  shows "scrubLinuxHostedSystem m = (m, Some ErrUnknownType)"
  using assms
  by (auto simp: scrubLinuxHostedSystem_def index_True_iff split: prod.splits bool.splits)

definition create_message :: bytes where
  \<open>create_message = ''{"ActivityId":"a","ContainerId":"c","ContainerConfig":{"OciSpecification":{"process":{"env":["FOO=bar"],"cwd":"/"}}}}''\<close>





subsection \<open>The request base\<close>



definition message_without_ActivityId :: bytes where
  \<open>message_without_ActivityId = ''{"ContainerId":"c","ContainerConfig":{"OciSpecification":{"process":{"env":["FOO=bar"]}}},"Settings":{"ProcessParameters":"{}"}}''\<close>



subsection \<open>Container exec\<close>

lemma scrubExecuteProcess_string:
  assumes "isRequestBase m"
    and "map_of m ''Settings'' = Some (JObj st)"
    and "map_of st ''ProcessParameters'' = Some (JStr s)"
  shows "scrubExecuteProcess g m =
     (case ScrubProcessParameters g s of
        (s', Some err) \<Rightarrow> (m, Some err)
      | (s', None) \<Rightarrow>
          (map_set ''Settings'' (JObj (map_set ''ProcessParameters'' (JStr s') st)) m, None))"
  using assms by (simp add: scrubExecuteProcess_def index_object)






subsection \<open>Errors\<close>

definition exec_message_bad_parameters :: bytes where
  \<open>exec_message_bad_parameters = ''{"ActivityId":"a","ContainerId":"c","Settings":{"ProcessParameters":"{'' @ CHR 0x5C # ''"Environment'' @ CHR 0x5C # ''":5}"}}''\<close>

definition array_input :: bytes where
  \<open>array_input = ''["env"]''\<close>

lemma keywords_not_empty: "hasKeywords b \<Longrightarrow> b \<noteq> []"
  by (auto simp: hasKeywords_def scrubKeywords_def)

text \<open>
  C7. Past the short-circuit (scrubbing on, a keyword in the input, the input valid
  JSON), an error of the decoder or of the scrubber is what the operation returns, and
  with it the empty result, which is not the input: \<open>scrubBytes\<close> for any scrubber,
  \<open>ScrubProcessParameters\<close>, and \<open>scrubExecuteProcess\<close> for an error of
  \<open>ScrubProcessParameters\<close> on the nested string.
\<close>

theorem error_gives_empty_result:
  assumes "IsScrubbingEnabled g" and "hasKeywords b" and "Valid b"
  shows "(\<forall>m e. Unmarshal_genMap b [] = (m, Some e) \<longrightarrow> scrubBytes g b scrub = ([], Some e)) \<and>
         (\<forall>m m' e. Unmarshal_genMap b [] = (m, None) \<and> scrub m = (m', Some e) \<longrightarrow>
            scrubBytes g b scrub = ([], Some e)) \<and>
         (\<forall>pp e. Unmarshal_ProcessParameters b ProcessParameters_zero = (pp, Some e) \<longrightarrow>
            ScrubProcessParameters g b = ([], Some e)) \<and>
         (\<forall>m st s x e. Unmarshal_genMap b [] = (m, None) \<and> isRequestBase m \<and>
            map_of m ''Settings'' = Some (JObj st) \<and>
            map_of st ''ProcessParameters'' = Some (JStr s) \<and>
            ScrubProcessParameters g s = (x, Some e) \<longrightarrow>
            ScrubBridgeExecProcess g b = ([], Some e)) \<and>
         (\<forall>e. snd (scrubBytes g b scrub) = Some e \<longrightarrow>
            fst (scrubBytes g b scrub) = [] \<and> fst (scrubBytes g b scrub) \<noteq> b) \<and>
         (\<forall>e. snd (ScrubProcessParameters g b) = Some e \<longrightarrow>
            fst (ScrubProcessParameters g b) = [] \<and> fst (ScrubProcessParameters g b) \<noteq> b)"
proof -
  note run = scrubBytes_run [OF assms] and runp = ScrubProcessParameters_run [OF assms]
  have ne: "b \<noteq> []" by (rule keywords_not_empty [OF assms(2)])
  have 1: "\<forall>m e. Unmarshal_genMap b [] = (m, Some e) \<longrightarrow> scrubBytes g b scrub = ([], Some e)"
    by (simp add: run)
  have 2: "\<forall>m m' e. Unmarshal_genMap b [] = (m, None) \<and> scrub m = (m', Some e) \<longrightarrow>
            scrubBytes g b scrub = ([], Some e)"
    by (simp add: run)
  have 3: "\<forall>pp e. Unmarshal_ProcessParameters b ProcessParameters_zero = (pp, Some e) \<longrightarrow>
            ScrubProcessParameters g b = ([], Some e)"
    by (simp add: runp)
  have 4: "\<forall>m st s x e. Unmarshal_genMap b [] = (m, None) \<and> isRequestBase m \<and>
            map_of m ''Settings'' = Some (JObj st) \<and>
            map_of st ''ProcessParameters'' = Some (JStr s) \<and>
            ScrubProcessParameters g s = (x, Some e) \<longrightarrow>
            ScrubBridgeExecProcess g b = ([], Some e)"
    by (auto simp: ScrubBridgeExecProcess_def scrubBytes_run [OF assms] scrubExecuteProcess_string)
  have 5: "\<forall>e. snd (scrubBytes g b scrub) = Some e \<longrightarrow>
            fst (scrubBytes g b scrub) = [] \<and> fst (scrubBytes g b scrub) \<noteq> b"
    using ne by (auto simp: run split: prod.splits option.splits)
  have 6: "\<forall>e. snd (ScrubProcessParameters g b) = Some e \<longrightarrow>
            fst (ScrubProcessParameters g b) = [] \<and> fst (ScrubProcessParameters g b) \<noteq> b"
    using ne by (auto simp: runp split: prod.splits option.splits)
  from 1 2 3 4 5 6 show ?thesis by blast
qed

theorem error_gives_empty_result_witness:
  "ScrubBridgeCreate 1 array_input = ([], Some UnmarshalTypeError) \<and>
   ScrubBridgeCreate 1 message_without_ActivityId = ([], Some ErrUnknownType) \<and>
   ScrubBridgeExecProcess 1 exec_message_bad_parameters = ([], Some UnmarshalTypeError)"
proof -
  let ?m2 = "[(''ContainerConfig'',
               JObj [(''OciSpecification'', JObj [(''process'', JObj [(''env'', JArr [JStr ''FOO=bar''])])])]),
             (''ContainerId'', JStr ''c''),
             (''Settings'', JObj [(''ProcessParameters'', JStr ''{}'')])]"
  let ?s = \<open>''{"Environment":5}''\<close>
  let ?st = "[(''ProcessParameters'', JStr ?s)]"
  let ?m3 = "[(''ActivityId'', JStr ''a''), (''ContainerId'', JStr ''c''), (''Settings'', JObj ?st)]"
  have en: "IsScrubbingEnabled 1" by (simp add: IsScrubbingEnabled_def)
  have kw1: "hasKeywords array_input" and va1: "Valid array_input"
    and un1: "Unmarshal_genMap array_input [] = ([], Some UnmarshalTypeError)"
    unfolding array_input_def by code_simp+
  have kw2: "hasKeywords message_without_ActivityId" and va2: "Valid message_without_ActivityId"
    and un2: "Unmarshal_genMap message_without_ActivityId [] = (?m2, None)"
    unfolding message_without_ActivityId_def by code_simp+
  have sc2: "scrubLinuxHostedSystem ?m2 = (?m2, Some ErrUnknownType)" by code_simp
  have kw3: "hasKeywords exec_message_bad_parameters" and va3: "Valid exec_message_bad_parameters"
    and un3: "Unmarshal_genMap exec_message_bad_parameters [] = (?m3, None)"
    unfolding exec_message_bad_parameters_def by code_simp+
  have b3: "isRequestBase ?m3" and st3: "map_of ?m3 ''Settings'' = Some (JObj ?st)"
    and pp3: "map_of ?st ''ProcessParameters'' = Some (JStr ?s)"
    by (simp_all add: isRequestBase_def)
  have sc3: "ScrubProcessParameters 1 ?s = ([], Some UnmarshalTypeError)" by code_simp
  have "ScrubBridgeCreate 1 array_input = ([], Some UnmarshalTypeError)"
    using error_gives_empty_result [OF en kw1 va1, of scrubLinuxHostedSystem] un1
    by (simp add: ScrubBridgeCreate_def)
  moreover have "ScrubBridgeCreate 1 message_without_ActivityId = ([], Some ErrUnknownType)"
    using error_gives_empty_result [OF en kw2 va2, of scrubLinuxHostedSystem] un2 sc2
    unfolding ScrubBridgeCreate_def by blast
  moreover have "ScrubBridgeExecProcess 1 exec_message_bad_parameters = ([], Some UnmarshalTypeError)"
    using error_gives_empty_result [OF en kw3 va3, of "scrubExecuteProcess 1"] un3 b3 st3 pp3 sc3
    by blast
  ultimately show ?thesis by simp
qed


section \<open>What the encoder writes\<close>

text \<open>
  How often a byte occurs in the text a value carries: its strings, its keys and the
  literals of its numbers.
\<close>

fun occurrences :: "char \<Rightarrow> json \<Rightarrow> nat" where
  "occurrences c JNull = 0"
| "occurrences c (JBool b) = 0"
| "occurrences c (JNum l) = count_list l c"
| "occurrences c (JStr s) = count_list s c"
| "occurrences c (JArr vs) = sum_list (map (occurrences c) vs)"
| "occurrences c (JObj kvs) =
     sum_list (map (\<lambda>kv. count_list (fst kv) c + occurrences c (snd kv)) kvs)"

definition markup :: "char \<Rightarrow> bool" where
  "markup c \<longleftrightarrow> c = CHR ''<'' \<or> c = CHR ''>'' \<or> c = CHR ''&''"

lemma count_list_append: "count_list (xs @ ys) c = count_list xs c + count_list ys c"
  by (induction xs) auto

lemma count_list_take_drop: "count_list xs c = count_list (take n xs) c + count_list (drop n xs) c"
  using count_list_append [of "take n xs" "drop n xs" c] by simp

lemma markup_not_hex: "markup c \<Longrightarrow> i < 16 \<Longrightarrow> hex ! i \<noteq> c"
proof
  assume m: "markup c" and i: "i < 16" and e: "hex ! i = c"
  have "hex ! i \<in> set hex" using i by (intro nth_mem) (simp add: hex_def)
  with e have "c \<in> set hex" by simp
  with m show False by (auto simp: markup_def hex_def)
qed

lemma count_escape_byte:
  assumes "markup c" and "b < CHR 0x80" and "b \<noteq> c"
  shows "count_list (escape_byte b) c = 0"
proof -
  have "(of_char b :: nat) < 128" using assms(2) by (simp add: less_char_def)
  then have "(of_char b :: nat) div 16 < 16" and "(of_char b :: nat) mod 16 < 16" by simp_all
  then have "hex ! (of_char b div 16) \<noteq> c" and "hex ! (of_char b mod 16) \<noteq> c"
    using assms(1) by (simp_all add: markup_not_hex)
  then show ?thesis using assms(1,3) by (auto simp: escape_byte_def markup_def)
qed

lemma markup_safe: "markup c \<Longrightarrow> safe False c"
  by (auto simp: markup_def safe_def)

lemma markup_ascii: "markup c \<Longrightarrow> c < CHR 0x80"
  by (auto simp: markup_def)

lemma rune_size_cases: "rune_size xs = 1 \<or> rune_size xs = 2 \<or> rune_size xs = 3 \<or> rune_size xs = 4"
  by (induction xs rule: rune_size.induct) (auto split: list.splits)

lemmas char_nat = less_char_def less_eq_char_def

lemma rune_size_2: "rune_size xs = 2 \<Longrightarrow> \<exists>p0 b1 rest. xs = p0 # b1 # rest \<and> cont b1"
  by (induction xs rule: rune_size.induct) (auto split: list.splits if_splits simp: cont_def)

lemma rune_size_3: "rune_size xs = 3 \<Longrightarrow> \<exists>p0 b1 b2 rest. xs = p0 # b1 # b2 # rest \<and> \<not> b1 < CHR 0x80 \<and> cont b2"
  by (induction xs rule: rune_size.induct) (auto split: list.splits if_splits simp: cont_def char_nat)

lemma rune_size_4:
  "rune_size xs = 4 \<Longrightarrow> \<exists>p0 b1 b2 b3 rest. xs = p0 # b1 # b2 # b3 # rest \<and> \<not> b1 < CHR 0x80 \<and> cont b2 \<and> cont b3"
  by (induction xs rule: rune_size.induct) (auto split: list.splits if_splits simp: cont_def char_nat)

lemma cont_not_ascii: "cont b \<Longrightarrow> \<not> b < CHR 0x80"
  by (auto simp: cont_def char_nat)

lemma count_rune:
  assumes "markup c" and "\<not> b < CHR 0x80"
  shows "count_list (take (rune_size (b # src)) (b # src)) c = 0"
proof -
  have nb: "\<And>x. \<not> x < CHR 0x80 \<Longrightarrow> x \<noteq> c" using markup_ascii [OF assms(1)] by auto
  consider "rune_size (b # src) = 1" | "rune_size (b # src) = 2" | "rune_size (b # src) = 3"
    | "rune_size (b # src) = 4" using rune_size_cases by blast
  then show ?thesis
  proof cases
    case 1
    then show ?thesis using nb [OF assms(2)] by simp
  next
    case 2
    from rune_size_2 [OF 2] obtain b1 rest where "src = b1 # rest" "cont b1" by auto
    then show ?thesis using 2 nb [OF assms(2)] nb [OF cont_not_ascii] by simp
  next
    case 3
    from rune_size_3 [OF 3] obtain b1 b2 rest where "src = b1 # b2 # rest" "\<not> b1 < CHR 0x80" "cont b2"
      by auto
    then show ?thesis using 3 nb [OF assms(2)] nb [OF cont_not_ascii] nb by simp
  next
    case 4
    from rune_size_4 [OF 4] obtain b1 b2 b3 rest
      where "src = b1 # b2 # b3 # rest" "\<not> b1 < CHR 0x80" "cont b2" "cont b3" by auto
    then show ?thesis using 4 nb [OF assms(2)] nb [OF cont_not_ascii] nb by simp
  qed
qed

lemma drop_rune: "0 < n \<Longrightarrow> drop (n - 1) src = drop n (b # src)"
  by (cases n) simp_all

lemma rune_size_pos: "0 < rune_size xs"
  using rune_size_cases [of xs] by auto

lemma count_string_body_gen:
  assumes "markup c"
  shows "\<not> esc \<Longrightarrow> count_list (string_body esc s) c = count_list s c"
proof (induction esc s rule: string_body.induct)
  case (1 esc)
  show ?case by simp
next
  case (2 esc b src)
  note Cons = this
  note m = assms
  have c0: "CHR 0x5C \<noteq> c" "CHR ''u'' \<noteq> c" "CHR ''f'' \<noteq> c" "CHR ''d'' \<noteq> c"
    "CHR ''2'' \<noteq> c" "CHR ''0'' \<noteq> c" "CHR ''8'' \<noteq> c" "CHR ''9'' \<noteq> c"
    using m by (auto simp: markup_def)
  show ?case
  proof (cases "b < CHR 0x80")
    case True
    then show ?thesis
      using Cons(1) Cons(6) m count_escape_byte [OF m True] markup_safe [OF m]
      by (auto simp: count_list_append)
  next
    case hi: False
    then have bc: "b \<noteq> c" using markup_ascii [OF m] by auto
    show ?thesis
    proof (cases "rune_size (b # src) = 1")
      case True
      then show ?thesis using hi bc Cons(2) Cons(6) by (simp add: c0)
    next
      case n1: False
      have split: "count_list (b # src) c =
          count_list (take (rune_size (b # src)) (b # src)) c +
          count_list (drop (rune_size (b # src) - 1) src) c"
        using count_list_take_drop [of "b # src" c "rune_size (b # src)"]
          drop_rune [OF rune_size_pos, of "b # src" src b] by simp
      have zero: "count_list (take (rune_size (b # src)) (b # src)) c = 0"
        by (rule count_rune [OF m hi])
      show ?thesis
      proof (cases "take 3 (b # src) = LINE_SEPARATOR")
        case True
        then have eq: "b # src = LINE_SEPARATOR @ drop 2 src"
          by (metis append_take_drop_id drop_Suc_Cons numeral_3_eq_3 numeral_2_eq_2)
        have "count_list (LINE_SEPARATOR @ drop 2 src) c = count_list (drop 2 src) c"
          using m by (auto simp: LINE_SEPARATOR_def markup_def)
        then have "count_list (b # src) c = count_list (drop 2 src) c"
          by (simp only: eq [symmetric])
        then show ?thesis using hi n1 True Cons(3) Cons(6) by (simp add: c0)
      next
        case ls: False
        show ?thesis
        proof (cases "take 3 (b # src) = PARAGRAPH_SEPARATOR")
          case True
          then have eq: "b # src = PARAGRAPH_SEPARATOR @ drop 2 src"
            by (metis append_take_drop_id drop_Suc_Cons numeral_3_eq_3 numeral_2_eq_2)
          have "count_list (PARAGRAPH_SEPARATOR @ drop 2 src) c = count_list (drop 2 src) c"
            using m by (auto simp: PARAGRAPH_SEPARATOR_def markup_def)
          then have "count_list (b # src) c = count_list (drop 2 src) c"
            by (simp only: eq [symmetric])
          then show ?thesis using hi n1 ls True Cons(4) Cons(6) by (simp add: c0)
        next
          case False
          then show ?thesis
            using hi n1 ls Cons(5) Cons(6) split zero by (simp add: count_list_append)
        qed
      qed
    qed
  qed
qed

lemma count_string_body: "markup c \<Longrightarrow> count_list (string_body False s) c = count_list s c"
  by (simp add: count_string_body_gen)

lemma markup_not_syntax:
  assumes "markup c"
  shows "CHR 0x22 \<noteq> c" and "CHR '','' \<noteq> c" and "CHR '':'' \<noteq> c" and "CHR ''['' \<noteq> c"
    and "CHR '']'' \<noteq> c" and "CHR ''{'' \<noteq> c" and "CHR ''}'' \<noteq> c" and "CHR 0x0A \<noteq> c"
    and "c \<noteq> CHR '',''"
    and "count_list ''null'' c = 0" and "count_list ''true'' c = 0" and "count_list ''false'' c = 0"
  using assms by (auto simp: markup_def)

lemma count_appendString:
  "markup c \<Longrightarrow> count_list (appendString dst s False) c = count_list dst c + count_list s c"
  by (simp add: appendString_def count_list_append count_string_body markup_not_syntax)

lemma count_commas:
  "c \<noteq> CHR '','' \<Longrightarrow> count_list (commas xs) c = sum_list (map (\<lambda>x. count_list x c) xs)"
  by (induction xs rule: commas.induct) (auto simp: count_list_append)

lemma count_marshal:
  assumes "markup c"
  shows "count_list (marshal False v) c = occurrences c v"
proof (induction v)
  case (JArr vs)
  have "count_list (marshal False (JArr vs)) c = count_list (commas (map (marshal False) vs)) c"
    by (simp add: marshal.simps count_list_append markup_not_syntax [OF assms])
  also have "\<dots> = sum_list (map (\<lambda>x. count_list x c) (map (marshal False) vs))"
    by (rule count_commas) (rule markup_not_syntax [OF assms])
  also have "\<dots> = sum_list (map (occurrences c) vs)"
    using JArr by (simp add: comp_def cong: map_cong)
  finally show ?case by simp
next
  case (JObj kvs)
  let ?f = "\<lambda>kv. appendString [] (fst kv) False @ CHR '':'' # marshal False (snd kv)"
  have ih: "\<And>kv. kv \<in> set kvs \<Longrightarrow> count_list (marshal False (snd kv)) c = occurrences c (snd kv)"
    using JObj by (metis prod.collapse snds.intros)
  have "count_list (marshal False (JObj kvs)) c = count_list (commas (map ?f kvs)) c"
    by (simp add: marshal.simps count_list_append markup_not_syntax [OF assms])
  also have "\<dots> = sum_list (map (\<lambda>x. count_list x c) (map ?f kvs))"
    by (rule count_commas) (rule markup_not_syntax [OF assms])
  also have "\<dots> = sum_list (map (\<lambda>kv. count_list (fst kv) c + occurrences c (snd kv)) kvs)"
    using ih
    by (simp add: comp_def count_list_append count_appendString [OF assms]
        markup_not_syntax [OF assms] cong: map_cong)
  finally show ?case by simp
next
  case (JBool b)
  show ?case by (cases b) (simp_all add: marshal.simps markup_not_syntax [OF assms] del: count_list.simps)
qed (simp_all add: marshal.simps count_appendString [OF assms] markup_not_syntax [OF assms]
    del: count_list.simps)

lemma string_body_safe: "\<forall>b \<in> set s. b < CHR 0x80 \<and> safe esc b \<Longrightarrow> string_body esc s = s"
  by (induction s) auto

text \<open>
  C9. The encoder of the package escapes no markup: in what \<open>encode\<close> writes for any
  value, each of \<^verbatim>\<open><\<close>, \<^verbatim>\<open>>\<close> and \<^verbatim>\<open>&\<close> occurs exactly as often as in the strings,
  keys and numbers of the value (no escape sequence holds one, so none was turned into
  an escape); a string of printable ASCII without quote and backslash is written between
  quotes as it is; and the replacement \<^verbatim>\<open><scrubbed>\<close> is written with its angle brackets.
\<close>

theorem encode_keeps_markup:
  "(\<forall>c. markup c \<longrightarrow> count_list (fst (encode buf v)) c = count_list buf c + occurrences c v) \<and>
   (\<forall>s. (\<forall>b \<in> set s. CHR 0x20 \<le> b \<and> b < CHR 0x80 \<and> b \<noteq> CHR 0x22 \<and> b \<noteq> CHR 0x5C) \<longrightarrow>
      fst (encode buf (JStr s)) = buf @ [CHR 0x22] @ s @ [CHR 0x22, CHR 0x0A]) \<and>
   fst (encode [] (JArr [JStr ScrubbedReplacement])) = CHR ''['' # CHR 0x22 # ''<scrubbed>'' @ [CHR 0x22, CHR '']'', CHR 0x0A]"
proof (intro conjI allI impI)
  fix c assume "markup c"
  then show "count_list (fst (encode buf v)) c = count_list buf c + occurrences c v"
    by (simp add: encode_eq count_list_append count_marshal markup_not_syntax)
next
  fix s assume "\<forall>b \<in> set s. CHR 0x20 \<le> b \<and> b < CHR 0x80 \<and> b \<noteq> CHR 0x22 \<and> b \<noteq> CHR 0x5C"
  then have "string_body False s = s" by (intro string_body_safe) (auto simp: safe_def)
  then show "fst (encode buf (JStr s)) = buf @ [CHR 0x22] @ s @ [CHR 0x22, CHR 0x0A]"
    by (simp add: encode_eq marshal.simps appendString_def)
next
  show "fst (encode [] (JArr [JStr ScrubbedReplacement])) =
      CHR ''['' # CHR 0x22 # ''<scrubbed>'' @ [CHR 0x22, CHR '']'', CHR 0x0A]"
    by (simp add: encode_eq marshal.simps appendString_def ScrubbedReplacement_def safe_def)
qed

theorem encode_keeps_markup_witness:
  "count_list (fst (encode [] (JObj [(''a<b'', JArr [JStr ''x & y > z'', JStr ''<''])]))) (CHR ''<'') = 2 \<and>
   fst (encode [] (JStr ''x & y > z'')) = CHR 0x22 # ''x & y > z'' @ [CHR 0x22, CHR 0x0A] \<and>
   marshal True (JStr ''<'') = CHR 0x22 # CHR 0x5C # ''u003c'' @ [CHR 0x22]"
proof -
  have m: "markup (CHR ''<'')" by (simp add: markup_def)
  have "count_list (fst (encode [] (JObj [(''a<b'', JArr [JStr ''x & y > z'', JStr ''<''])]))) (CHR ''<'') = 2"
    using encode_keeps_markup [of "[]" "JObj [(''a<b'', JArr [JStr ''x & y > z'', JStr ''<''])]"] m
    by simp
  moreover have "fst (encode [] (JStr ''x & y > z'')) = CHR 0x22 # ''x & y > z'' @ [CHR 0x22, CHR 0x0A]"
    using encode_keeps_markup [of "[]" "JStr ''x & y > z''"] by simp
  moreover have "marshal True (JStr ''<'') = CHR 0x22 # CHR 0x5C # ''u003c'' @ [CHR 0x22]"
    by (simp add: marshal.simps appendString_def safe_def escape_byte_def hex_def)
  ultimately show ?thesis by simp
qed


section \<open>The trailing newline\<close>

definition exec_message :: bytes where
  \<open>exec_message = ''{"ActivityId":"a","ContainerId":"c","Settings":{"ProcessParameters":"{'' @ CHR 0x5C # ''"CommandLine'' @ CHR 0x5C # ''":'' @ CHR 0x5C # ''"sh'' @ CHR 0x5C # ''",'' @ CHR 0x5C # ''"Environment'' @ CHR 0x5C # ''":{'' @ CHR 0x5C # ''"SECRET'' @ CHR 0x5C # ''":'' @ CHR 0x5C # ''"x'' @ CHR 0x5C # ''"}}"}}''\<close>

definition process_parameters :: bytes where
  \<open>process_parameters = ''{"CommandLine":"sh","Environment":{"SECRET":"x"}}''\<close>

text \<open>
  C10. Whatever an operation returns after re-encoding (scrubbing on, a keyword in the
  input, the input valid JSON, no error) ends with the newline the encoder appends, so
  it differs from an input that does not end with one. This holds for the string
  \<open>ScrubProcessParameters\<close> returns as well: when the string under
  \<^verbatim>\<open>Settings.ProcessParameters\<close> holds a keyword and is valid JSON, the string
  \<open>scrubExecuteProcess\<close> stores in the envelope in its place ends with a newline.
\<close>

theorem reencoded_output_ends_with_newline:
  assumes "IsScrubbingEnabled g" and "hasKeywords b" and "Valid b"
  shows "(\<forall>out. scrubBytes g b scrub = (out, None) \<longrightarrow>
            out \<noteq> [] \<and> last out = CHR 0x0A \<and> (b = [] \<or> last b \<noteq> CHR 0x0A \<longrightarrow> out \<noteq> b)) \<and>
         (\<forall>out. ScrubProcessParameters g b = (out, None) \<longrightarrow>
            out \<noteq> [] \<and> last out = CHR 0x0A \<and> (b = [] \<or> last b \<noteq> CHR 0x0A \<longrightarrow> out \<noteq> b)) \<and>
         (\<forall>m st s m'. map_of m ''Settings'' = Some (JObj st) \<and>
            map_of st ''ProcessParameters'' = Some (JStr s) \<and> hasKeywords s \<and> Valid s \<and>
            scrubExecuteProcess g m = (m', None) \<longrightarrow>
            (\<exists>st' s'. map_of m' ''Settings'' = Some (JObj st') \<and>
               map_of st' ''ProcessParameters'' = Some (JStr s') \<and>
               s' \<noteq> [] \<and> last s' = CHR 0x0A))"
proof -
  have 1: "out \<noteq> [] \<and> last out = CHR 0x0A \<and> (b = [] \<or> last b \<noteq> CHR 0x0A \<longrightarrow> out \<noteq> b)"
    if "scrubBytes g b scrub = (out, None)" for out
  proof -
    from that have "\<exists>x. out = x @ [CHR 0x0A]"
      by (auto simp: scrubBytes_run [OF assms] split: prod.splits option.splits)
    then show ?thesis by auto
  qed
  have 2: "out \<noteq> [] \<and> last out = CHR 0x0A \<and> (b = [] \<or> last b \<noteq> CHR 0x0A \<longrightarrow> out \<noteq> b)"
    if "ScrubProcessParameters g b = (out, None)" for out
  proof -
    from that have "\<exists>x. out = x @ [CHR 0x0A]"
      by (auto simp: ScrubProcessParameters_run [OF assms] split: prod.splits option.splits)
    then show ?thesis by auto
  qed
  have 3: "\<exists>st' s'. map_of m' ''Settings'' = Some (JObj st') \<and>
      map_of st' ''ProcessParameters'' = Some (JStr s') \<and> s' \<noteq> [] \<and> last s' = CHR 0x0A"
    if a: "map_of m ''Settings'' = Some (JObj st) \<and>
      map_of st ''ProcessParameters'' = Some (JStr s) \<and> hasKeywords s \<and> Valid s \<and>
      scrubExecuteProcess g m = (m', None)" for m st s m'
  proof -
    from a have base: "isRequestBase m" by (auto simp: scrubExecuteProcess_def split: if_splits)
    from a obtain s' where s': "ScrubProcessParameters g s = (s', None)"
      and m': "m' = map_set ''Settings'' (JObj (map_set ''ProcessParameters'' (JStr s') st)) m"
      using scrubExecuteProcess_string [OF base, of st s g]
      by (auto split: prod.splits option.splits)
    from s' a have "\<exists>x. s' = x @ [CHR 0x0A]"
      by (auto simp: ScrubProcessParameters_run [OF assms(1)] split: prod.splits option.splits)
    then have "s' \<noteq> [] \<and> last s' = CHR 0x0A" by auto
    then show ?thesis unfolding m' by (simp add: map_of_map_set)
  qed
  from 1 2 3 show ?thesis by blast
qed

theorem reencoded_output_ends_with_newline_witness:
  \<open>ScrubProcessParameters 1 process_parameters = (''{"CommandLine":"sh","Environment":{"<scrubbed>":"<scrubbed>"}}'' @ [CHR 0x0A], None) \<and>
   last (fst (ScrubBridgeExecProcess 1 exec_message)) = CHR 0x0A \<and>
   fst (ScrubBridgeExecProcess 1 exec_message) \<noteq> exec_message\<close>
proof -
  let ?st = "[(''ProcessParameters'', JStr process_parameters)]"
  let ?m = "[(''ActivityId'', JStr ''a''), (''ContainerId'', JStr ''c''), (''Settings'', JObj ?st)]"
  have en: "IsScrubbingEnabled 1" by (simp add: IsScrubbingEnabled_def)
  have kw: "hasKeywords exec_message" and va: "Valid exec_message"
    unfolding exec_message_def by code_simp+
  have kwp: "hasKeywords process_parameters" and vap: "Valid process_parameters"
    unfolding process_parameters_def by code_simp+
  have inner: \<open>ScrubProcessParameters 1 process_parameters = (''{"CommandLine":"sh","Environment":{"<scrubbed>":"<scrubbed>"}}'' @ [CHR 0x0A], None)\<close>
    unfolding process_parameters_def by code_simp
  have un: "Unmarshal_genMap exec_message [] = (?m, None)"
    unfolding exec_message_def process_parameters_def by code_simp
  have "isRequestBase ?m" by (simp add: isRequestBase_def)
  then have "\<exists>m'. scrubExecuteProcess 1 ?m = (m', None)"
    using scrubExecuteProcess_string [of ?m ?st process_parameters 1] inner by simp
  then have "\<exists>out. ScrubBridgeExecProcess 1 exec_message = (out, None)"
    using scrubBytes_run [OF en kw va, of "scrubExecuteProcess 1"] un
    by (auto simp: ScrubBridgeExecProcess_def)
  then obtain out where out: "scrubBytes 1 exec_message (scrubExecuteProcess 1) = (out, None)"
    by (auto simp: ScrubBridgeExecProcess_def)
  have le: "exec_message = [] \<or> last exec_message \<noteq> CHR 0x0A"
    unfolding exec_message_def by simp
  from reencoded_output_ends_with_newline [OF en kw va, of "scrubExecuteProcess 1"] out le
  have "last out = CHR 0x0A \<and> out \<noteq> exec_message" by blast
  with out inner show ?thesis by (simp add: ScrubBridgeExecProcess_def)
qed


section \<open>Strings: what the decoder yields, the encoder writes back\<close>

text \<open>Well-formed UTF-8, as \<open>rune_size\<close> reads it.\<close>

fun utf8 :: "bytes \<Rightarrow> bool" where
  "utf8 [] \<longleftrightarrow> True"
| "utf8 (b # s) \<longleftrightarrow>
     (if b < CHR 0x80 then utf8 s
      else rune_size (b # s) \<noteq> 1 \<and> utf8 (drop (rune_size (b # s) - 1) s))"

lemma rune_size_le: "rune_size xs \<noteq> 1 \<Longrightarrow> rune_size xs \<le> length xs"
  by (induction xs rule: rune_size.induct) (auto split: list.splits if_splits)

lemma rune_size_append: "rune_size xs \<noteq> 1 \<Longrightarrow> rune_size (xs @ t) = rune_size xs"
  by (induction xs rule: rune_size.induct) (auto split: list.splits if_splits)

lemma rune_size_take: "rune_size xs \<noteq> 1 \<Longrightarrow> rune_size (take (rune_size xs) xs) = rune_size xs"
  by (induction xs rule: rune_size.induct) (auto split: list.splits if_splits)

lemma rune_size_high: "rune_size (b # s) \<noteq> 1 \<Longrightarrow> \<not> b < CHR 0x80"
  by (cases s) (auto split: if_splits simp: char_nat)

lemma utf8_append: "utf8 xs \<Longrightarrow> utf8 ys \<Longrightarrow> utf8 (xs @ ys)"
proof (induction xs rule: utf8.induct)
  case 1
  then show ?case by simp
next
  case (2 b s)
  show ?case
  proof (cases "b < CHR 0x80")
    case True
    then show ?thesis using 2 by simp
  next
    case False
    with "2.prems" have n1: "rune_size (b # s) \<noteq> 1"
      and rest: "utf8 (drop (rune_size (b # s) - 1) s)" by simp_all
    have le: "rune_size (b # s) - 1 \<le> length s" using rune_size_le [OF n1] by simp
    have "rune_size (b # s @ ys) = rune_size (b # s)" using rune_size_append [OF n1, of ys] by simp
    moreover have "utf8 (drop (rune_size (b # s) - 1) s @ ys)"
      using "2.IH"(2) [OF False rest "2.prems"(2)] .
    ultimately show ?thesis using False n1 le by simp
  qed
qed

lemma utf8_rune: "rune_size xs \<noteq> 1 \<Longrightarrow> utf8 (take (rune_size xs) xs)"
proof -
  assume n1: "rune_size xs \<noteq> 1"
  then obtain b s where xs: "xs = b # s" by (cases xs) auto
  let ?n = "rune_size xs"
  have hi: "\<not> b < CHR 0x80" using n1 rune_size_high xs by blast
  have pos: "0 < ?n" by (rule rune_size_pos)
  have t: "take ?n xs = b # take (?n - 1) s" using xs pos by (cases ?n) simp_all
  have "rune_size (b # take (?n - 1) s) = ?n" using rune_size_take [OF n1] t by simp
  moreover have "drop (?n - 1) (take (?n - 1) s) = []" by simp
  ultimately show ?thesis using hi n1 t by simp
qed

lemma utf8_RuneError: "utf8 RuneError"
  by (simp add: RuneError_def cont_def)

lemma char_of_eq: "char_of (n::nat) = c \<longleftrightarrow> n mod 256 = of_char c"
  by (metis char_of_char of_char_of)

lemma char_of_le: "c \<le> char_of (n::nat) \<longleftrightarrow> of_char c \<le> n mod 256"
  and le_char_of: "char_of (n::nat) \<le> c \<longleftrightarrow> n mod 256 \<le> of_char c"
  and char_of_less: "char_of (n::nat) < c \<longleftrightarrow> n mod 256 < of_char c"
  by (simp_all add: char_nat)

lemmas char_of_ord = char_of_eq char_of_le le_char_of char_of_less

lemma div_bounds:
  fixes r :: nat
  assumes "0 < n"
  shows "a \<le> r div n \<longleftrightarrow> a * n \<le> r" and "r div n < b \<longleftrightarrow> r < b * n"
  using assms by (simp_all add: less_eq_div_iff_mult_less_eq div_less_iff_less_mult)

lemma enc2: "(128::nat) \<le> r \<Longrightarrow> r < 2048 \<Longrightarrow> 2 \<le> r div 64 \<and> r div 64 < 32"
  by (simp add: div_bounds)

lemma enc3_low: "(2048::nat) \<le> r \<Longrightarrow> r < 65536 \<Longrightarrow> r div 4096 < 16 \<and> 32 \<le> r div 64"
  by (simp add: div_bounds)

lemma mod_as_diff: "(x::nat) div 64 = q \<Longrightarrow> x mod 64 = x - 64 * q"
  by (metis minus_mult_div_eq_mod)

lemma enc3_sur:
  fixes r :: nat
  assumes "\<not> (55296 \<le> r \<and> r < 57344)" and "r div 4096 = 13"
  shows "r div 64 mod 64 < 32"
proof -
  have q: "r div 64 div 64 = 13" using assms(2) by (simp add: div_mult2_eq [symmetric])
  have "13 \<le> r div 4096" and "r div 4096 < 14" using assms(2) by simp_all
  then have "53248 \<le> r" and "r < 57344" by (simp_all add: div_bounds)
  with assms(1) have "r < 55296" by simp
  then have "r div 64 < 864" by (simp add: div_bounds)
  then show ?thesis unfolding mod_as_diff [OF q] by simp
qed

lemma enc3_E0:
  fixes r :: nat
  assumes "2048 \<le> r" and "r div 4096 = 0"
  shows "32 \<le> r div 64 mod 64"
proof -
  have q: "r div 64 div 64 = 0" using assms(2) by (simp add: div_mult2_eq [symmetric])
  have "32 \<le> r div 64" using assms(1) by (simp add: div_bounds)
  then show ?thesis unfolding mod_as_diff [OF q] by simp
qed

lemma enc4:
  fixes r :: nat
  assumes "65536 \<le> r" and "r < 1114112"
  shows "r div 262144 < 5" and "r div 262144 = 0 \<Longrightarrow> 16 \<le> r div 4096 mod 64"
    and "r div 262144 = 4 \<Longrightarrow> r div 4096 mod 64 < 16"
proof -
  show "r div 262144 < 5" using assms by (simp add: div_bounds)
  have lo: "16 \<le> r div 4096" and hi: "r div 4096 < 272" using assms by (simp_all add: div_bounds)
  { assume z: "r div 262144 = 0"
    then have q: "r div 4096 div 64 = 0" by (simp add: div_mult2_eq [symmetric])
    show "16 \<le> r div 4096 mod 64" unfolding mod_as_diff [OF q] using lo by simp }
  { assume z: "r div 262144 = 4"
    then have q: "r div 4096 div 64 = 4" by (simp add: div_mult2_eq [symmetric])
    show "r div 4096 mod 64 < 16" unfolding mod_as_diff [OF q] using hi by simp }
qed


lemma mod64_le: "(x::nat) mod 64 \<le> 63"
  using mod_less_divisor [of 64 x] by (simp del: mod_less_divisor)

lemma utf8_EncodeRune: "utf8 (EncodeRune r)"
proof -
  note m = mod64_le
  consider "r < 0x80" | "0x80 \<le> r" "r < 0x800" | "0x800 \<le> r" "0xD800 \<le> r \<and> r < 0xE000"
    | "0x800 \<le> r" "\<not> (0xD800 \<le> r \<and> r < 0xE000)" "r < 0x10000"
    | "0x10000 \<le> r" "r < 0x110000" | "0x110000 \<le> r"
    by linarith
  then show ?thesis
  proof cases
    case 1
    then show ?thesis by (simp add: EncodeRune_def char_of_ord)
  next
    case 2
    then show ?thesis using enc2 [of r] by (simp add: EncodeRune_def char_of_ord cont_def m)
  next
    case 3
    then show ?thesis by (simp add: EncodeRune_def utf8_RuneError)
  next
    case 4
    have e: "EncodeRune r =
        [char_of (0xE0 + r div 4096), char_of (0x80 + r div 64 mod 64), char_of (0x80 + r mod 64)]"
      using 4 by (auto simp: EncodeRune_def)
    have q: "r div 4096 < 16" using enc3_low [of r] 4 by simp
    have a: "r div 4096 = 0 \<Longrightarrow> 32 \<le> r div 64 mod 64" using enc3_E0 [of r] 4 by simp
    have a': "r div 4096 = 0 \<Longrightarrow> r div 64 \<le> 63"
      using div_bounds(2) [of 64 "r div 64" 1] by (simp add: div_mult2_eq [symmetric])
    have b: "r div 4096 = 13 \<Longrightarrow> r div 64 mod 64 \<le> 31" using enc3_sur [of r] 4 by simp
    show ?thesis unfolding e using q a by (simp add: char_of_ord cont_def m a' b)
  next
    case 5
    have e: "EncodeRune r =
        [char_of (0xF0 + r div 262144), char_of (0x80 + r div 4096 mod 64),
         char_of (0x80 + r div 64 mod 64), char_of (0x80 + r mod 64)]"
      using 5 by (auto simp: EncodeRune_def)
    note f = enc4 [OF 5]
    have a': "r div 262144 = 0 \<Longrightarrow> r div 4096 \<le> 63"
      using div_bounds(2) [of 64 "r div 4096" 1] by (simp add: div_mult2_eq [symmetric])
    have b: "r div 262144 = 4 \<Longrightarrow> r div 4096 mod 64 \<le> 15" using f(3) by simp
    show ?thesis unfolding e using f(1,2) by (simp add: char_of_ord cont_def m a' b)
  next
    case 6
    then show ?thesis by (simp add: EncodeRune_def utf8_RuneError)
  qed
qed

lemma emit_Some: "emit out res = Some (s, r) \<longleftrightarrow> (\<exists>s'. res = Some (s', r) \<and> s = out @ s')"
  by (auto simp: emit_def split: option.splits)

lemma unescape_ascii: "unescape e = Some d \<Longrightarrow> d < CHR 0x80"
  by (auto simp: unescape_def split: if_splits)

text \<open>One step of \<open>lex_string\<close> past a byte that is not the closing quote.\<close>

lemma lex_string_step:
  assumes "lex_string (c # cs) = Some (s, r)" and "c \<noteq> CHR 0x22"
  shows "\<exists>out k s'. utf8 out \<and> k \<le> length cs \<and> lex_string (drop k cs) = Some (s', r) \<and> s = out @ s'"
proof (cases "c = CHR 0x5C")
  case True
  with assms obtain e r0 where cs: "cs = e # r0" by (cases cs) auto
  show ?thesis
  proof (cases "e = CHR ''u''")
    case u: True
    with assms True cs obtain rr where rr: "getu4 (c # cs) = Some rr"
      by (auto split: option.splits)
    let ?next = "lex_string (drop 4 r0)"
    consider (pair) "\<exists>n s'. lex_string (drop 10 r0) = Some (s', r) \<and> s = EncodeRune n @ s'"
      | (bad) "\<exists>s'. ?next = Some (s', r) \<and> s = RuneError @ s'"
      | (one) "\<exists>s'. ?next = Some (s', r) \<and> s = EncodeRune rr @ s'"
      using assms True cs u rr
      by (simp add: emit_Some split: if_splits option.splits) blast+
    then show ?thesis
    proof cases
      case pair
      then obtain n s' where s': "lex_string (drop 10 r0) = Some (s', r)" "s = EncodeRune n @ s'"
        by auto
      then have "10 \<le> length r0" by (cases "10 \<le> length r0") auto
      with s' show ?thesis
        using cs utf8_EncodeRune
        by (intro exI [of _ "EncodeRune n"] exI [of _ 11] exI [of _ s']) simp
    next
      case bad
      then obtain s' where s': "?next = Some (s', r)" "s = RuneError @ s'" by auto
      then have "4 \<le> length r0" by (cases "4 \<le> length r0") auto
      with s' show ?thesis
        using cs utf8_RuneError by (intro exI [of _ RuneError] exI [of _ 5] exI [of _ s']) simp
    next
      case one
      then obtain s' where s': "?next = Some (s', r)" "s = EncodeRune rr @ s'" by auto
      then have "4 \<le> length r0" by (cases "4 \<le> length r0") auto
      with s' show ?thesis
        using cs utf8_EncodeRune by (intro exI [of _ "EncodeRune rr"] exI [of _ 5] exI [of _ s']) simp
    qed
  next
    case False
    with assms True cs obtain d s' where "unescape e = Some d" "lex_string r0 = Some (s', r)" "s = [d] @ s'"
      by (auto simp: emit_Some split: option.splits)
    then show ?thesis
      using cs unescape_ascii [of e d] by (intro exI [of _ "[d]"] exI [of _ 1] exI [of _ s']) simp
  qed
next
  case nb: False
  show ?thesis
  proof (cases "c < CHR 0x80")
    case True
    with assms nb obtain s' where "lex_string cs = Some (s', r)" "s = [c] @ s'"
      by (auto simp: emit_Some split: if_splits)
    then show ?thesis using True by (intro exI [of _ "[c]"] exI [of _ 0] exI [of _ s']) simp
  next
    case hi: False
    then have n20: "\<not> c < CHR 0x20" by (auto simp: char_nat)
    show ?thesis
    proof (cases "rune_size (c # cs) = 1")
      case True
      with assms nb hi n20 obtain s' where "lex_string cs = Some (s', r)" "s = RuneError @ s'"
        by (auto simp: emit_Some)
      then show ?thesis
        using utf8_RuneError by (intro exI [of _ RuneError] exI [of _ 0] exI [of _ s']) simp
    next
      case False
      let ?n = "rune_size (c # cs)"
      from assms nb hi n20 False obtain s'
        where "lex_string (drop (?n - 1) cs) = Some (s', r)" "s = take ?n (c # cs) @ s'"
        by (auto simp: emit_Some)
      moreover have "?n - 1 \<le> length cs" using rune_size_le [OF False] by simp
      ultimately show ?thesis
        using utf8_rune [OF False]
        by (intro exI [of _ "take ?n (c # cs)"] exI [of _ "?n - 1"] exI [of _ s']) simp
    qed
  qed
qed

lemma lex_string_utf8: "lex_string cs = Some (s, r) \<Longrightarrow> utf8 s"
proof (induction "length cs" arbitrary: cs s r rule: less_induct)
  case less
  show ?case
  proof (cases cs)
    case Nil
    with less.prems show ?thesis by simp
  next
    case (Cons c cs')
    show ?thesis
    proof (cases "c = CHR 0x22")
      case True
      with less.prems Cons show ?thesis by simp
    next
      case False
      from lex_string_step [OF less.prems [unfolded Cons] False]
      obtain out k s' where o: "utf8 out" "lex_string (drop k cs') = Some (s', r)" "s = out @ s'"
        by blast
      have "length (drop k cs') < length cs" using Cons by simp
      from less.hyps [OF this o(2)] o show ?thesis by (simp add: utf8_append)
    qed
  qed
qed

lemma emit_simps [simp]: "emit out (Some (s, r)) = Some (out @ s, r)" "emit out None = None"
  by (simp_all add: emit_def)

lemma hex_val_hex: "i < 16 \<Longrightarrow> hex_val (hex ! i) = Some i"
proof -
  have "list_all (\<lambda>i. hex_val (hex ! i) = Some i) [0..<16]" by code_simp
  then show "i < 16 \<Longrightarrow> hex_val (hex ! i) = Some i" by (simp add: list_all_iff)
qed

lemma lex_string_safe:
  assumes "b < CHR 0x80" and "safe esc b"
  shows "lex_string (b # X) = emit [b] (lex_string X)"
  using assms by (simp add: safe_def char_nat)

lemma lex_string_u:
  assumes "getu4 (CHR 0x5C # CHR ''u'' # r) = Some rr" and "\<not> (0xD800 \<le> rr \<and> rr < 0xE000)"
  shows "lex_string (CHR 0x5C # CHR ''u'' # r) = emit (EncodeRune rr) (lex_string (drop 4 r))"
  using assms by auto

lemma lex_string_escape_byte:
  assumes "b < CHR 0x80"
  shows "lex_string (escape_byte b @ X) = emit [b] (lex_string X)"
proof -
  let ?n = "of_char b :: nat"
  have n: "?n < 128" using assms by (simp add: char_nat)
  consider "b = CHR 0x5C \<or> b = CHR 0x22" | "b = CHR 0x0A" | "b = CHR 0x0D" | "b = CHR 0x09"
    | "b \<noteq> CHR 0x5C" "b \<noteq> CHR 0x22" "b \<noteq> CHR 0x0A" "b \<noteq> CHR 0x0D" "b \<noteq> CHR 0x09"
    by blast
  then show ?thesis
  proof cases
    case 1
    then show ?thesis by (auto simp: escape_byte_def unescape_def)
  next
    case 2
    then show ?thesis by (simp add: escape_byte_def unescape_def)
  next
    case 3
    then show ?thesis by (simp add: escape_byte_def unescape_def)
  next
    case 4
    then show ?thesis by (simp add: escape_byte_def unescape_def)
  next
    case 5
    let ?h1 = "hex ! (?n div 16)" and ?h2 = "hex ! (?n mod 16)"
    have e: "escape_byte b = [CHR 0x5C, CHR ''u'', CHR ''0'', CHR ''0'', ?h1, ?h2]"
      using 5 by (simp add: escape_byte_def)
    have h: "hex_val ?h1 = Some (?n div 16)" "hex_val ?h2 = Some (?n mod 16)"
      using n by (simp_all add: hex_val_hex)
    have z: "hex_val (CHR ''0'') = Some 0" by (simp add: hex_val_def)
    have g: "getu4 (CHR 0x5C # CHR ''u'' # CHR ''0'' # CHR ''0'' # ?h1 # ?h2 # X) = Some ?n"
      by (simp add: h z)
    have enc: "EncodeRune ?n = [b]" using n by (simp add: EncodeRune_def)
    have "\<not> (0xD800 \<le> ?n \<and> ?n < 0xE000)" using n by simp
    from lex_string_u [OF g this] show ?thesis
      unfolding e enc by simp
  qed
qed

lemma EncodeRune_separators:
  "EncodeRune 0x2028 = LINE_SEPARATOR" "EncodeRune 0x2029 = PARAGRAPH_SEPARATOR"
  by (simp_all add: EncodeRune_def LINE_SEPARATOR_def PARAGRAPH_SEPARATOR_def char_of_eq)

lemma getu4_separators:
  "getu4 (CHR 0x5C # CHR ''u'' # CHR ''2'' # CHR ''0'' # CHR ''2'' # CHR ''8'' # X) = Some 0x2028"
  "getu4 (CHR 0x5C # CHR ''u'' # CHR ''2'' # CHR ''0'' # CHR ''2'' # CHR ''9'' # X) = Some 0x2029"
  by (simp_all add: hex_val_def)

lemma lex_string_separators:
  "lex_string (CHR 0x5C # CHR ''u'' # CHR ''2'' # CHR ''0'' # CHR ''2'' # CHR ''8'' # X) =
     emit LINE_SEPARATOR (lex_string X)"
  "lex_string (CHR 0x5C # CHR ''u'' # CHR ''2'' # CHR ''0'' # CHR ''2'' # CHR ''9'' # X) =
     emit PARAGRAPH_SEPARATOR (lex_string X)"
  using lex_string_u [OF getu4_separators(1), of X] lex_string_u [OF getu4_separators(2), of X]
  by (simp_all add: EncodeRune_separators)

lemma lex_string_rune:
  assumes "rune_size (c # cs) \<noteq> 1"
  shows "lex_string (take (rune_size (c # cs)) (c # cs) @ X) =
         emit (take (rune_size (c # cs)) (c # cs)) (lex_string X)"
proof -
  let ?n = "rune_size (c # cs)"
  have hi: "\<not> c < CHR 0x80" by (rule rune_size_high [OF assms])
  then have c: "c \<noteq> CHR 0x22" "c \<noteq> CHR 0x5C" "\<not> c < CHR 0x20" by (auto simp: char_nat)
  have pos: "0 < ?n" by (rule rune_size_pos)
  have le: "?n - 1 \<le> length cs" using rune_size_le [OF assms] by simp
  have t: "take ?n (c # cs) = c # take (?n - 1) cs" using pos by (cases ?n) simp_all
  have rs: "rune_size (c # take (?n - 1) cs @ X) = ?n"
    using rune_size_append [of "take ?n (c # cs)" X] rune_size_take [OF assms] assms t by simp
  have tk: "take ?n (c # take (?n - 1) cs @ X) = c # take (?n - 1) cs"
    using le pos by (cases ?n) (simp_all add: min_absorb2)
  have dr: "drop (?n - 1) (take (?n - 1) cs @ X) = X"
    using le by (simp add: min_absorb2)
  have "lex_string (c # take (?n - 1) cs @ X) =
      emit (take ?n (c # take (?n - 1) cs @ X)) (lex_string (drop (?n - 1) (take (?n - 1) cs @ X)))"
    using c hi rs assms by simp
  then show ?thesis unfolding t tk dr by simp
qed

lemma separator_size:
  assumes "take 3 (b # src) = LINE_SEPARATOR \<or> take 3 (b # src) = PARAGRAPH_SEPARATOR"
  shows "rune_size (b # src) = 3" and "take 3 (b # src) @ drop 2 src = b # src"
proof -
  have 3: "take 3 (b # src) = b # take 2 src" by (simp add: numeral_3_eq_3 numeral_2_eq_2)
  show "take 3 (b # src) @ drop 2 src = b # src" unfolding 3 by simp
  show "rune_size (b # src) = 3"
  proof (cases src)
    case Nil
    with assms show ?thesis by (simp add: LINE_SEPARATOR_def PARAGRAPH_SEPARATOR_def)
  next
    case (Cons x s1)
    show ?thesis
    proof (cases s1)
      case Nil
      with assms Cons show ?thesis by (simp add: LINE_SEPARATOR_def PARAGRAPH_SEPARATOR_def)
    next
      case (Cons y rest)
      with assms \<open>src = x # s1\<close> have "b = CHR 0xE2" "x = CHR 0x80" "y = CHR 0xA8 \<or> y = CHR 0xA9"
        by (auto simp: LINE_SEPARATOR_def PARAGRAPH_SEPARATOR_def)
      then show ?thesis unfolding \<open>src = x # s1\<close> Cons by (auto simp: cont_def)
    qed
  qed
qed

text \<open>What the encoder writes for a well-formed string, the decoder reads back.\<close>

lemma lex_string_string_body:
  "utf8 s \<Longrightarrow> lex_string (string_body esc s @ CHR 0x22 # rest) = Some (s, rest)"
proof (induction esc s rule: string_body.induct)
  case (1 esc)
  show ?case by simp
next
  case (2 esc b src)
  let ?n = "rune_size (b # src)"
  show ?case
  proof (cases "b < CHR 0x80")
    case True
    with "2.prems" have "utf8 src" by simp
    from "2.IH"(1) [OF True this] True show ?thesis
      by (simp add: lex_string_escape_byte lex_string_safe [of b esc] del: lex_string.simps)
  next
    case hi: False
    with "2.prems" have n1: "?n \<noteq> 1" and rest: "utf8 (drop (?n - 1) src)" by simp_all
    show ?thesis
    proof (cases "take 3 (b # src) = LINE_SEPARATOR")
      case True
      note sz = separator_size [OF disjI1 [OF True]]
      from rest sz(1) have "utf8 (drop 2 src)" by simp
      from "2.IH"(3) [OF hi n1 True this] have
        "lex_string (string_body esc (b # src) @ CHR 0x22 # rest) = Some (LINE_SEPARATOR @ drop 2 src, rest)"
        using hi n1 True by (simp add: lex_string_separators del: lex_string.simps)
      then show ?thesis unfolding True [symmetric] sz(2) .
    next
      case ls: False
      show ?thesis
      proof (cases "take 3 (b # src) = PARAGRAPH_SEPARATOR")
        case True
        note sz = separator_size [OF disjI2 [OF True]]
        from rest sz(1) have "utf8 (drop 2 src)" by simp
        from "2.IH"(4) [OF hi n1 ls True this] have
          "lex_string (string_body esc (b # src) @ CHR 0x22 # rest) =
             Some (PARAGRAPH_SEPARATOR @ drop 2 src, rest)"
          using hi n1 ls True by (simp add: lex_string_separators del: lex_string.simps)
        then show ?thesis unfolding True [symmetric] sz(2) .
      next
        case False
        have whole: "take ?n (b # src) @ drop (?n - 1) src = b # src"
          using drop_rune [OF rune_size_pos, of "b # src" src b] by simp
        from "2.IH"(5) [OF hi n1 ls False rest] have
          "lex_string (string_body esc (b # src) @ CHR 0x22 # rest) =
             Some (take ?n (b # src) @ drop (?n - 1) src, rest)"
          using hi n1 ls False lex_string_rune [OF n1]
          by (simp del: lex_string.simps)
        then show ?thesis unfolding whole .
      qed
    qed
  qed
qed

section \<open>Numbers\<close>

text \<open>A number literal, the whole of it.\<close>

definition number :: "bytes \<Rightarrow> bool" where
  "number l \<longleftrightarrow> lex_number l = Some (l, [])"

text \<open>What may follow a value in the text the encoder writes.\<close>

definition ends_value :: "bytes \<Rightarrow> bool" where
  "ends_value rest \<longleftrightarrow>
     (case rest of
        [] \<Rightarrow> True
      | c # r \<Rightarrow> c = CHR '','' \<or> c = CHR '']'' \<or> c = CHR ''}'' \<or> c = CHR 0x0A)"

lemma ends_value_simps [simp]:
  "ends_value []" "ends_value (CHR '','' # r)" "ends_value (CHR '']'' # r)"
  "ends_value (CHR ''}'' # r)" "ends_value (CHR 0x0A # r)"
  by (simp_all add: ends_value_def)

lemma ends_value_head:
  assumes "ends_value (c # r)"
  shows "\<not> is_digit c" and "c \<noteq> CHR ''.''" and "c \<noteq> CHR ''e''" and "c \<noteq> CHR ''E''"
    and "c \<noteq> CHR ''+''" and "c \<noteq> CHR ''-''"
  using assms by (auto simp: ends_value_def is_digit_def)

lemma digits_then:
  assumes "dropWhile is_digit xs = []" and "ends_value rest"
  shows "takeWhile is_digit (xs @ rest) = xs" and "dropWhile is_digit (xs @ rest) = rest"
proof -
  have all: "\<And>x. x \<in> set xs \<Longrightarrow> is_digit x" using assms(1) by (simp add: dropWhile_eq_Nil_conv)
  have r: "takeWhile is_digit rest = []" "dropWhile is_digit rest = rest"
    using assms(2) by (cases rest; simp add: ends_value_head)+
  show "takeWhile is_digit (xs @ rest) = xs" using all r by (simp add: takeWhile_append2)
  show "dropWhile is_digit (xs @ rest) = rest" using all r by (simp add: dropWhile_append2)
qed

lemma span_append:
  assumes "\<And>x. x \<in> set xs \<Longrightarrow> P x" and "l = [] \<or> \<not> P (hd l)"
  shows "takeWhile P (xs @ l) = xs" and "dropWhile P (xs @ l) = l"
proof -
  have "takeWhile P l = []" and "dropWhile P l = l" using assms(2) by (cases l; simp)+
  then show "takeWhile P (xs @ l) = xs" and "dropWhile P (xs @ l) = l"
    using assms(1) by (simp_all add: takeWhile_append2 dropWhile_append2)
qed

lemma dropWhile_head: "dropWhile P xs = c # r \<Longrightarrow> \<not> P c"
  by (metis hd_dropWhile list.sel(1) list.distinct(1))

lemma digits_self:
  "takeWhile is_digit (takeWhile is_digit xs) = takeWhile is_digit xs"
  "dropWhile is_digit (takeWhile is_digit xs) = []"
  by (simp_all add: takeWhile_idem dropWhile_eq_Nil_conv) (meson set_takeWhileD)

lemma digits_split: "takeWhile is_digit xs @ dropWhile is_digit xs = xs"
  by simp

lemma digits_head: "takeWhile is_digit xs = d # ds \<Longrightarrow> is_digit d"
  by (metis list.set_intros(1) set_takeWhileD)

lemma digit_not_sign: "is_digit d \<Longrightarrow> d \<noteq> CHR ''+'' \<and> d \<noteq> CHR ''-'' \<and> d \<noteq> CHR ''e'' \<and> d \<noteq> CHR ''E'' \<and> d \<noteq> CHR ''.''"
  by (auto simp: is_digit_def)

subsection \<open>A literal read from a longer input is a literal; a literal is read back\<close>

lemma lex_exp_closed:
  assumes "lex_exp acc cs = Some (x, r)"
  shows "\<exists>l. x = acc @ l \<and> cs = l @ r \<and> (\<forall>a. lex_exp a l = Some (a @ l, []))"
proof (cases cs)
  case Nil
  with assms show ?thesis by (simp add: lex_exp_def)
next
  case (Cons e t)
  show ?thesis
  proof (cases "e = CHR ''e'' \<or> e = CHR ''E''")
    case False
    with assms Cons have "x = acc" "r = cs" by (auto simp: lex_exp_def)
    then show ?thesis by (intro exI [of _ "[]"]) (simp add: lex_exp_def)
  next
    case True
    define sg where "sg = (case t of [] \<Rightarrow> [] | s # r1 \<Rightarrow> if s = CHR ''+'' \<or> s = CHR ''-'' then [s] else [])"
    define t' where "t' = (case t of [] \<Rightarrow> t | s # r1 \<Rightarrow> if s = CHR ''+'' \<or> s = CHR ''-'' then r1 else t)"
    have st: "(case t of [] \<Rightarrow> ([], t) | s # r1 \<Rightarrow> if s = CHR ''+'' \<or> s = CHR ''-'' then ([s], r1) else ([], t)) = (sg, t')"
      by (auto simp: sg_def t'_def split: list.splits)
    have tt: "t = sg @ t'" by (auto simp: sg_def t'_def split: list.splits)
    let ?ds = "takeWhile is_digit t'"
    from assms Cons True st have ne: "?ds \<noteq> []" and x: "x = acc @ e # sg @ ?ds"
      and r: "r = dropWhile is_digit t'"
      by (auto simp: lex_exp_def split: if_splits)
    obtain d ds where ds: "?ds = d # ds" using ne by (cases ?ds) auto
    have d: "is_digit d" by (rule digits_head [OF ds])
    have again: "(case sg @ ?ds of [] \<Rightarrow> ([], sg @ ?ds)
        | s # r1 \<Rightarrow> if s = CHR ''+'' \<or> s = CHR ''-'' then ([s], r1) else ([], sg @ ?ds)) = (sg, ?ds)"
      using digit_not_sign [OF d] ds by (auto simp: sg_def split: list.splits)
    have "lex_exp a (e # sg @ ?ds) = Some (a @ e # sg @ ?ds, [])" for a
      using True ne by (simp add: lex_exp_def again digits_self)
    moreover have "cs = (e # sg @ ?ds) @ r" using Cons tt r by simp
    ultimately show ?thesis using x by (intro exI [of _ "e # sg @ ?ds"]) simp
  qed
qed

lemma lex_exp_then:
  assumes "lex_exp a l = Some (x, [])" and "ends_value rest"
  shows "lex_exp a (l @ rest) = Some (x, rest)"
proof (cases l)
  case Nil
  with assms show ?thesis
    by (cases rest) (auto simp: lex_exp_def dest: ends_value_head)
next
  case (Cons e t)
  show ?thesis
  proof (cases "e = CHR ''e'' \<or> e = CHR ''E''")
    case False
    with assms Cons show ?thesis by (auto simp: lex_exp_def)
  next
    case True
    define sg where "sg = (case t of [] \<Rightarrow> [] | s # r1 \<Rightarrow> if s = CHR ''+'' \<or> s = CHR ''-'' then [s] else [])"
    define t' where "t' = (case t of [] \<Rightarrow> t | s # r1 \<Rightarrow> if s = CHR ''+'' \<or> s = CHR ''-'' then r1 else t)"
    have st: "(case t of [] \<Rightarrow> ([], t) | s # r1 \<Rightarrow> if s = CHR ''+'' \<or> s = CHR ''-'' then ([s], r1) else ([], t)) = (sg, t')"
      by (auto simp: sg_def t'_def split: list.splits)
    from assms(1) Cons True st have ne: "takeWhile is_digit t' \<noteq> []"
      and x: "x = a @ e # sg @ takeWhile is_digit t'" and dr: "dropWhile is_digit t' = []"
      by (auto simp: lex_exp_def split: if_splits)
    have t'ne: "t' \<noteq> []" using ne by auto
    then have tne: "t \<noteq> []" by (auto simp: t'_def split: list.splits)
    have st2: "(case t @ rest of [] \<Rightarrow> ([], t @ rest)
        | s # r1 \<Rightarrow> if s = CHR ''+'' \<or> s = CHR ''-'' then ([s], r1) else ([], t @ rest)) = (sg, t' @ rest)"
      using tne by (auto simp: sg_def t'_def split: list.splits)
    note dg = digits_then [OF dr assms(2)]
    have "takeWhile is_digit t' = t'" using dr by (simp add: dropWhile_eq_Nil_conv)
    with x have x': "x = a @ e # sg @ t'" by simp
    show ?thesis
      unfolding Cons using True t'ne by (simp add: lex_exp_def st2 dg x')
  qed
qed

lemma lex_frac_closed:
  assumes "lex_frac acc cs = Some (x, r)"
  shows "\<exists>l. x = acc @ l \<and> cs = l @ r \<and> (\<forall>a. lex_frac a l = Some (a @ l, []))"
proof (cases cs)
  case Nil
  with assms show ?thesis by (simp add: lex_frac_def lex_exp_def)
next
  case (Cons p t)
  show ?thesis
  proof (cases "p = CHR ''.''")
    case False
    with assms Cons have "lex_exp acc cs = Some (x, r)" by (simp add: lex_frac_def)
    from lex_exp_closed [OF this] obtain l where l: "x = acc @ l" "cs = l @ r"
      "\<forall>a. lex_exp a l = Some (a @ l, [])" by blast
    have "lex_frac a l = Some (a @ l, [])" for a
    proof (cases l)
      case Nil
      then show ?thesis by (simp add: lex_frac_def lex_exp_def)
    next
      case (Cons c l')
      with l(2) \<open>cs = p # t\<close> have "c = p" by simp
      with False Cons l(3) show ?thesis by (simp add: lex_frac_def)
    qed
    with l show ?thesis by blast
  next
    case True
    let ?ds = "takeWhile is_digit t"
    from assms Cons True have ne: "?ds \<noteq> []"
      and e: "lex_exp (acc @ p # ?ds) (dropWhile is_digit t) = Some (x, r)"
      by (auto simp: lex_frac_def split: if_splits)
    from lex_exp_closed [OF e] obtain l where l: "x = (acc @ p # ?ds) @ l"
      "dropWhile is_digit t = l @ r" "\<forall>a. lex_exp a l = Some (a @ l, [])" by blast
    have "l = [] \<or> \<not> is_digit (hd l)"
    proof (cases l)
      case Nil
      then show ?thesis by simp
    next
      case (Cons c l')
      with l(2) have "dropWhile is_digit t = c # l' @ r" by simp
      from dropWhile_head [OF this] Cons show ?thesis by simp
    qed
    then have stop: "takeWhile is_digit (?ds @ l) = ?ds \<and> dropWhile is_digit (?ds @ l) = l"
      using span_append [of ?ds is_digit l] set_takeWhileD [of _ is_digit t] by blast
    have "lex_frac a (p # ?ds @ l) = Some (a @ p # ?ds @ l, [])" for a
      using True ne stop l(3) by (simp add: lex_frac_def)
    moreover have "cs = (p # ?ds @ l) @ r"
    proof -
      have "t = ?ds @ l @ r" using l(2) digits_split [of t] by simp
      then show ?thesis using Cons by simp
    qed
    ultimately show ?thesis using l(1) by (intro exI [of _ "p # ?ds @ l"]) simp
  qed
qed

lemma span_then:
  assumes "ends_value rest"
  shows "takeWhile is_digit (t @ rest) = takeWhile is_digit t"
    and "dropWhile is_digit (t @ rest) = dropWhile is_digit t @ rest"
proof -
  let ?ds = "takeWhile is_digit t" and ?dw = "dropWhile is_digit t"
  have "?dw @ rest = [] \<or> \<not> is_digit (hd (?dw @ rest))"
  proof (cases ?dw)
    case Nil
    have "rest = [] \<or> \<not> is_digit (hd rest)"
      using assms by (cases rest) (simp_all add: ends_value_head)
    then show ?thesis unfolding Nil by simp
  next
    case (Cons c r)
    from dropWhile_head [OF this] Cons show ?thesis by simp
  qed
  from span_append [of ?ds is_digit "?dw @ rest", OF _ this] set_takeWhileD [of _ is_digit t]
  have "takeWhile is_digit (?ds @ ?dw @ rest) = ?ds" "dropWhile is_digit (?ds @ ?dw @ rest) = ?dw @ rest"
    by blast+
  then show "takeWhile is_digit (t @ rest) = ?ds" "dropWhile is_digit (t @ rest) = ?dw @ rest"
    by (simp_all add: append_assoc [symmetric] del: append_assoc)
qed

lemma lex_frac_then:
  assumes "lex_frac a l = Some (x, [])" and "ends_value rest"
  shows "lex_frac a (l @ rest) = Some (x, rest)"
proof (cases l)
  case Nil
  with assms(1) have x: "x = a" by (simp add: lex_frac_def lex_exp_def)
  have "lex_exp a ([] @ rest) = Some (a, rest)"
    by (rule lex_exp_then [OF _ assms(2)]) (simp add: lex_exp_def)
  then show ?thesis
    using Nil x assms(2) by (cases rest) (auto simp: lex_frac_def dest: ends_value_head)
next
  case (Cons p t)
  show ?thesis
  proof (cases "p = CHR ''.''")
    case False
    with assms(1) Cons have "lex_exp a l = Some (x, [])" by (simp add: lex_frac_def)
    from lex_exp_then [OF this assms(2)] False Cons show ?thesis by (simp add: lex_frac_def)
  next
    case True
    from assms(1) Cons True have ne: "takeWhile is_digit t \<noteq> []"
      and e: "lex_exp (a @ p # takeWhile is_digit t) (dropWhile is_digit t) = Some (x, [])"
      by (auto simp: lex_frac_def split: if_splits)
    from lex_exp_then [OF e assms(2)] ne True show ?thesis
      unfolding Cons by (simp add: lex_frac_def span_then [OF assms(2)])
  qed
qed

lemma lex_int_closed:
  assumes "lex_int acc cs = Some (x, r)"
  shows "\<exists>c l. x = acc @ c # l \<and> cs = (c # l) @ r \<and> is_digit c \<and>
           (\<forall>a. lex_int a (c # l) = Some (a @ c # l, []))"
proof -
  from assms obtain c t where cs: "cs = c # t" by (cases cs) (auto simp: lex_int_def)
  show ?thesis
  proof (cases "c = CHR ''0''")
    case True
    with assms cs have "lex_frac (acc @ [c]) t = Some (x, r)" by (simp add: lex_int_def)
    from lex_frac_closed [OF this] obtain l where l: "x = (acc @ [c]) @ l" "t = l @ r"
      "\<forall>a. lex_frac a l = Some (a @ l, [])" by blast
    have "lex_int a (c # l) = Some (a @ c # l, [])" for a
      using True l(3) by (simp add: lex_int_def)
    moreover have "is_digit c" using True by (simp add: is_digit_def)
    ultimately show ?thesis using l cs by (intro exI [of _ c] exI [of _ l]) simp
  next
    case False
    let ?ds = "takeWhile is_digit t"
    from assms cs False have d: "is_digit c"
      and f: "lex_frac (acc @ c # ?ds) (dropWhile is_digit t) = Some (x, r)"
      by (auto simp: lex_int_def split: if_splits)
    from lex_frac_closed [OF f] obtain l where l: "x = (acc @ c # ?ds) @ l"
      "dropWhile is_digit t = l @ r" "\<forall>a. lex_frac a l = Some (a @ l, [])" by blast
    have "l = [] \<or> \<not> is_digit (hd l)"
    proof (cases l)
      case Nil
      then show ?thesis by simp
    next
      case (Cons c' l')
      with l(2) have "dropWhile is_digit t = c' # l' @ r" by simp
      from dropWhile_head [OF this] Cons show ?thesis by simp
    qed
    then have stop: "takeWhile is_digit (?ds @ l) = ?ds" "dropWhile is_digit (?ds @ l) = l"
      using span_append [of ?ds is_digit l] set_takeWhileD [of _ is_digit t] by blast+
    have "lex_int a (c # ?ds @ l) = Some (a @ c # ?ds @ l, [])" for a
      using False d stop l(3) by (simp add: lex_int_def)
    moreover have "cs = (c # ?ds @ l) @ r"
    proof -
      have "t = ?ds @ l @ r" using l(2) digits_split [of t] by simp
      then show ?thesis using cs by simp
    qed
    ultimately show ?thesis using l(1) d by (intro exI [of _ c] exI [of _ "?ds @ l"]) simp
  qed
qed

lemma lex_int_then:
  assumes "lex_int a l = Some (x, [])" and "ends_value rest"
  shows "lex_int a (l @ rest) = Some (x, rest)"
proof -
  from assms(1) obtain c t where l: "l = c # t" by (cases l) (auto simp: lex_int_def)
  show ?thesis
  proof (cases "c = CHR ''0''")
    case True
    with assms(1) l have "lex_frac (a @ [c]) t = Some (x, [])" by (simp add: lex_int_def)
    from lex_frac_then [OF this assms(2)] True show ?thesis unfolding l by (simp add: lex_int_def)
  next
    case False
    with assms(1) l have d: "is_digit c"
      and f: "lex_frac (a @ c # takeWhile is_digit t) (dropWhile is_digit t) = Some (x, [])"
      by (auto simp: lex_int_def split: if_splits)
    from lex_frac_then [OF f assms(2)] False d show ?thesis
      unfolding l by (simp add: lex_int_def span_then [OF assms(2)])
  qed
qed

lemma digit_not_minus: "is_digit c \<Longrightarrow> c \<noteq> CHR ''-''"
  by (auto simp: is_digit_def)

lemma number_parse:
  assumes "lex_number cs = Some (l, r)"
  shows "number l" and "cs = l @ r"
proof -
  from assms obtain c t where cs: "cs = c # t" by (cases cs) (auto simp: lex_number_def)
  have "number l \<and> cs = l @ r"
  proof (cases "c = CHR ''-''")
    case True
    with assms cs have "lex_int [c] t = Some (l, r)" by (simp add: lex_number_def)
    from lex_int_closed [OF this] obtain d k where k: "l = [c] @ d # k" "t = (d # k) @ r"
      "\<forall>a. lex_int a (d # k) = Some (a @ d # k, [])" by blast
    from k(3) True have "lex_number (c # d # k) = Some (c # d # k, [])"
      by (simp add: lex_number_def)
    with k cs show ?thesis by (simp add: number_def)
  next
    case False
    with assms cs have "lex_int [] cs = Some (l, r)" by (simp add: lex_number_def)
    from lex_int_closed [OF this] obtain d k where k: "l = d # k" "cs = (d # k) @ r" "is_digit d"
      "\<forall>a. lex_int a (d # k) = Some (a @ d # k, [])" by auto
    from k(3,4) have "lex_number (d # k) = Some (d # k, [])"
      using digit_not_minus [OF k(3)] by (simp add: lex_number_def)
    with k show ?thesis by (simp add: number_def)
  qed
  then show "number l" and "cs = l @ r" by simp_all
qed

lemma number_head: "number l \<Longrightarrow> \<exists>c t. l = c # t \<and> (c = CHR ''-'' \<or> is_digit c)"
  by (cases l) (auto simp: number_def lex_number_def lex_int_def is_digit_def split: if_splits)

lemma number_then:
  assumes "number l" and "ends_value rest"
  shows "lex_number (l @ rest) = Some (l, rest)"
proof -
  from number_head [OF assms(1)] obtain c t where l: "l = c # t" by blast
  show ?thesis
  proof (cases "c = CHR ''-''")
    case True
    with assms(1) l have "lex_int [c] t = Some (l, [])" by (simp add: number_def lex_number_def)
    from lex_int_then [OF this assms(2)] True show ?thesis unfolding l by (simp add: lex_number_def)
  next
    case False
    with assms(1) l have "lex_int [] l = Some (l, [])" by (simp add: number_def lex_number_def)
    from lex_int_then [OF this assms(2)] False l show ?thesis by (simp add: lex_number_def)
  qed
qed

section \<open>Values the decoder yields\<close>

text \<open>
  Every string and key well-formed UTF-8, every number a number literal; and a value
  nested no deeper than \<open>d\<close> containers.
\<close>

fun wellformed :: "json \<Rightarrow> bool" where
  "wellformed (JNum l) \<longleftrightarrow> number l"
| "wellformed (JStr s) \<longleftrightarrow> utf8 s"
| "wellformed (JArr vs) \<longleftrightarrow> list_all wellformed vs"
| "wellformed (JObj kvs) \<longleftrightarrow> list_all (\<lambda>kv. utf8 (fst kv) \<and> wellformed (snd kv)) kvs"
| "wellformed v \<longleftrightarrow> True"

fun fits :: "nat \<Rightarrow> json \<Rightarrow> bool" where
  "fits d (JArr vs) \<longleftrightarrow> 0 < d \<and> list_all (fits (d - 1)) vs"
| "fits d (JObj kvs) \<longleftrightarrow> 0 < d \<and> list_all (\<lambda>kv. fits (d - 1) (snd kv)) kvs"
| "fits d v \<longleftrightarrow> True"

lemma skip_ws_Cons: "\<not> is_space c \<Longrightarrow> skip_ws (c # cs) = c # cs"
  by (simp add: skip_ws_def)

lemma skip_ws_newline [simp]: "skip_ws [CHR 0x0A] = []"
  by (simp add: skip_ws_def is_space_def)

lemma digit_not_space: "is_digit c \<Longrightarrow> \<not> is_space c"
  by (auto simp: is_digit_def is_space_def)

text \<open>The first byte the encoder writes for a value.\<close>

definition starts_value :: "char \<Rightarrow> bool" where
  "starts_value c \<longleftrightarrow>
     c = CHR ''{'' \<or> c = CHR ''['' \<or> c = CHR 0x22 \<or> c = CHR ''t'' \<or> c = CHR ''f'' \<or>
     c = CHR ''n'' \<or> c = CHR ''-'' \<or> is_digit c"

lemma starts_value_not:
  assumes "starts_value c"
  shows "\<not> is_space c" and "c \<noteq> CHR '']''" and "c \<noteq> CHR ''}''" and "c \<noteq> CHR '',''"
  using assms by (auto simp: starts_value_def is_space_def is_digit_def)

lemma marshal_head: "wellformed v \<Longrightarrow> \<exists>c r. marshal esc v = c # r \<and> starts_value c"
proof (cases v)
  case (JNum l)
  assume "wellformed v"
  with JNum number_head [of l] show ?thesis by (auto simp: marshal.simps starts_value_def)
qed (auto simp: marshal.simps starts_value_def appendString_def)

lemma skip_ws_marshal: "wellformed v \<Longrightarrow> skip_ws (marshal esc v @ X) = marshal esc v @ X"
  using marshal_head [of v esc] by (auto simp: skip_ws_Cons starts_value_not)

lemma skip_ws_ends: "skip_ws (CHR '','' # X) = CHR '','' # X" "skip_ws (CHR '']'' # X) = CHR '']'' # X"
  "skip_ws (CHR ''}'' # X) = CHR ''}'' # X" "skip_ws (CHR '':'' # X) = CHR '':'' # X"
  "skip_ws (CHR 0x22 # X) = CHR 0x22 # X"
  by (simp_all add: skip_ws_def is_space_def)

subsection \<open>Arrays and objects\<close>

lemma elements_marshal:
  assumes "\<And>v X. v \<in> set vs \<Longrightarrow> ends_value X \<Longrightarrow> p (marshal esc v @ X) = Some (v, X)"
    and "list_all wellformed vs" and "vs \<noteq> []"
  shows "elements p (commas (map (marshal esc) vs) @ CHR '']'' # rest) = Some (vs, rest)"
  using assms
proof (induction vs)
  case Nil
  then show ?case by simp
next
  case (Cons v ws)
  show ?case
  proof (cases ws)
    case Nil
    have "p (marshal esc v @ CHR '']'' # rest) = Some (v, CHR '']'' # rest)"
      using Cons.prems(1) [of v] by simp
    then show ?thesis
      using Nil by (subst elements.simps) (simp add: skip_ws_ends)
  next
    case (Cons w ws')
    let ?Y = "commas (map (marshal esc) ws) @ CHR '']'' # rest"
    have ws: "list_all wellformed ws" "ws \<noteq> []" using Cons.prems(2) Cons by simp_all
    have ih: "elements p ?Y = Some (ws, rest)"
      using Cons.IH [OF _ ws] Cons.prems(1) by simp
    have w: "wellformed w" using ws(1) Cons by simp
    have sk: "skip_ws ?Y = ?Y"
      using skip_ws_marshal [OF w, of esc] Cons by (cases ws') simp_all
    have "p (marshal esc v @ CHR '','' # ?Y) = Some (v, CHR '','' # ?Y)"
      using Cons.prems(1) [of v] by simp
    moreover have "commas (map (marshal esc) (v # ws)) @ CHR '']'' # rest = marshal esc v @ CHR '','' # ?Y"
      using Cons by simp
    ultimately show ?thesis
      using ih sk by (subst elements.simps) (simp add: skip_ws_ends)
  qed
qed

lemma members_marshal:
  assumes "\<And>kv X. kv \<in> set kvs \<Longrightarrow> ends_value X \<Longrightarrow> p (marshal esc (snd kv) @ X) = Some (snd kv, X)"
    and "list_all (\<lambda>kv. utf8 (fst kv) \<and> wellformed (snd kv)) kvs" and "kvs \<noteq> []"
  shows "members p
           (commas (map (\<lambda>kv. appendString [] (fst kv) esc @ CHR '':'' # marshal esc (snd kv)) kvs)
            @ CHR ''}'' # rest) = Some (kvs, rest)"
  using assms
proof (induction kvs)
  case Nil
  then show ?case by simp
next
  case (Cons kv ws)
  let ?f = "\<lambda>kv. appendString [] (fst kv) esc @ CHR '':'' # marshal esc (snd kv)"
  obtain k v where kv: "kv = (k, v)" by (cases kv)
  have k: "utf8 k" and v: "wellformed v" using Cons.prems(2) kv by simp_all
  have key: "lex_string (string_body esc k @ CHR 0x22 # Z) = Some (k, Z)" for Z
    by (rule lex_string_string_body [OF k])
  have val: "p (marshal esc v @ X) = Some (v, X)" if "ends_value X" for X
    using Cons.prems(1) [of kv X] that kv by simp
  have skv: "skip_ws (marshal esc v @ X) = marshal esc v @ X" for X
    by (rule skip_ws_marshal [OF v])
  have one: "?f kv @ Z = CHR 0x22 # string_body esc k @ CHR 0x22 # CHR '':'' # marshal esc v @ Z" for Z
    using kv by (simp add: appendString_def)
  show ?case
  proof (cases ws)
    case Nil
    have whole: "commas (map ?f (kv # ws)) @ CHR ''}'' # rest =
        CHR 0x22 # string_body esc k @ CHR 0x22 # CHR '':'' # marshal esc v @ CHR ''}'' # rest"
      using Nil kv by (simp add: appendString_def)
    show ?thesis
      unfolding whole using Nil kv
      by (subst members.simps) (simp add: key skip_ws_ends skv val del: lex_string.simps)
  next
    case (Cons w ws')
    let ?Y = "commas (map ?f ws) @ CHR ''}'' # rest"
    have ws: "list_all (\<lambda>kv. utf8 (fst kv) \<and> wellformed (snd kv)) ws" "ws \<noteq> []"
      using Cons.prems(2) Cons by simp_all
    have ih: "members p ?Y = Some (ws, rest)"
      using Cons.IH [OF _ ws] Cons.prems(1) by simp
    have sk: "skip_ws ?Y = ?Y"
      using Cons by (cases ws') (simp_all add: appendString_def skip_ws_ends)
    have whole: "commas (map ?f (kv # ws)) @ CHR ''}'' # rest =
        CHR 0x22 # string_body esc k @ CHR 0x22 # CHR '':'' # marshal esc v @ CHR '','' # ?Y"
      using Cons kv by (simp add: appendString_def)
    show ?thesis
      unfolding whole using ih sk kv
      by (subst members.simps) (simp add: key skip_ws_ends skv val del: lex_string.simps)
  qed
qed

subsection \<open>What the encoder writes for a value, the parser reads back\<close>

lemma parse_value_array:
  "0 < d \<Longrightarrow> \<not> is_space c1 \<Longrightarrow> parse_value d (CHR ''['' # c1 # r1) =
     (if c1 = CHR '']'' then Some (JArr [], r1)
      else (case elements (\<lambda>x. parse_value (d - 1) x) (c1 # r1) of
              None \<Rightarrow> None
            | Some (vs, r2) \<Rightarrow> Some (JArr vs, r2)))"
  by (rule trans [OF parse_value.simps]) (simp add: skip_ws_Cons)

lemma parse_value_object:
  "0 < d \<Longrightarrow> \<not> is_space c1 \<Longrightarrow> parse_value d (CHR ''{'' # c1 # r1) =
     (if c1 = CHR ''}'' then Some (JObj [], r1)
      else (case members (\<lambda>x. parse_value (d - 1) x) (c1 # r1) of
              None \<Rightarrow> None
            | Some (kvs, r2) \<Rightarrow> Some (JObj kvs, r2)))"
  by (rule trans [OF parse_value.simps]) (simp add: skip_ws_Cons)

lemma parse_value_string:
  "parse_value d (CHR 0x22 # r) = (case lex_string r of None \<Rightarrow> None | Some (s, r1) \<Rightarrow> Some (JStr s, r1))"
  by (rule trans [OF parse_value.simps]) simp

lemma parse_value_literal:
  "parse_value d (CHR ''t'' # r) = lex_literal ''true'' (JBool True) (CHR ''t'' # r)"
  "parse_value d (CHR ''f'' # r) = lex_literal ''false'' (JBool False) (CHR ''f'' # r)"
  "parse_value d (CHR ''n'' # r) = lex_literal ''null'' JNull (CHR ''n'' # r)"
  by (rule trans [OF parse_value.simps], simp)+

lemma parse_value_number:
  assumes "c = CHR ''-'' \<or> is_digit c"
  shows "parse_value d (c # r) =
     (case lex_number (c # r) of None \<Rightarrow> None | Some (l, r1) \<Rightarrow> Some (JNum l, r1))"
proof -
  have "c \<noteq> CHR ''{''" "c \<noteq> CHR ''[''" "c \<noteq> CHR 0x22" "c \<noteq> CHR ''t''" "c \<noteq> CHR ''f''"
    "c \<noteq> CHR ''n''" using assms by (auto simp: is_digit_def)
  then show ?thesis using assms by (subst parse_value.simps) simp
qed

lemma parse_value_marshal:
  "wellformed v \<Longrightarrow> fits d v \<Longrightarrow> ends_value rest \<Longrightarrow> parse_value d (marshal esc v @ rest) = Some (v, rest)"
proof (induction v arbitrary: d rest)
  case JNull
  show ?case by (simp add: marshal.simps parse_value_literal lex_literal_def)
next
  case (JBool b)
  show ?case by (cases b) (simp_all add: marshal.simps parse_value_literal lex_literal_def)
next
  case (JNum l)
  then have n: "number l" by simp
  from number_head [OF n] obtain c t where l: "l = c # t" "c = CHR ''-'' \<or> is_digit c" by blast
  have "lex_number (c # t @ rest) = Some (l, rest)"
    using number_then [OF n JNum.prems(3)] l by simp
  then show ?case using l by (simp add: marshal.simps parse_value_number)
next
  case (JStr s)
  then have "utf8 s" by simp
  from lex_string_string_body [OF this, of esc rest] show ?case
    by (simp add: marshal.simps parse_value_string appendString_def del: lex_string.simps)
next
  case (JArr vs)
  from JArr.prems have d: "0 < d" and f: "list_all (fits (d - 1)) vs" and w: "list_all wellformed vs"
    by simp_all
  show ?case
  proof (cases vs)
    case Nil
    then show ?thesis using d by (simp add: marshal.simps parse_value_array is_space_def)
  next
    case (Cons v0 ws)
    have each: "parse_value (d - 1) (marshal esc v @ X) = Some (v, X)"
      if "v \<in> set vs" "ends_value X" for v X
      using JArr.IH [OF that(1) _ _ that(2)] that(1) f w by (simp add: list_all_iff)
    have el: "elements (\<lambda>x. parse_value (d - 1) x) (commas (map (marshal esc) vs) @ CHR '']'' # rest)
        = Some (vs, rest)"
      by (rule elements_marshal [OF each w]) (simp_all add: Cons)
    from marshal_head [of v0 esc] w Cons obtain c r where c: "marshal esc v0 = c # r" "starts_value c"
      by auto
    then obtain r' where body: "commas (map (marshal esc) vs) @ CHR '']'' # rest = c # r'"
      using Cons by (cases ws) auto
    show ?thesis
      using d el c(2) unfolding body
      by (simp add: marshal.simps parse_value_array body starts_value_not)
  qed
next
  case (JObj kvs)
  let ?f = "\<lambda>kv. appendString [] (fst kv) esc @ CHR '':'' # marshal esc (snd kv)"
  from JObj.prems have d: "0 < d" and f: "list_all (\<lambda>kv. fits (d - 1) (snd kv)) kvs"
    and w: "list_all (\<lambda>kv. utf8 (fst kv) \<and> wellformed (snd kv)) kvs"
    by simp_all
  show ?case
  proof (cases kvs)
    case Nil
    then show ?thesis using d by (simp add: marshal.simps parse_value_object is_space_def)
  next
    case (Cons kv0 ws)
    have each: "parse_value (d - 1) (marshal esc (snd kv) @ X) = Some (snd kv, X)"
      if "kv \<in> set kvs" "ends_value X" for kv X
    proof -
      have "snd kv \<in> Basic_BNFs.snds kv" by (cases kv) (simp add: snds.simps)
      from JObj.IH [OF that(1) this _ _ that(2)] that(1) f w show ?thesis
        by (simp add: list_all_iff)
    qed
    have me: "members (\<lambda>x. parse_value (d - 1) x) (commas (map ?f kvs) @ CHR ''}'' # rest)
        = Some (kvs, rest)"
      by (rule members_marshal [OF each w]) (simp_all add: Cons)
    obtain r' where body: "commas (map ?f kvs) @ CHR ''}'' # rest = CHR 0x22 # r'"
      using Cons by (cases ws) (auto simp: appendString_def)
    show ?thesis
      using d me unfolding body
      by (simp add: marshal.simps parse_value_object body is_space_def)
  qed
qed

lemma parse_encoded:
  assumes "wellformed v" and "fits maxNestingDepth v"
  shows "parse (marshal esc v @ [CHR 0x0A]) = Some v"
  using parse_value_marshal [OF assms, of "[CHR 0x0A]" esc] skip_ws_marshal [OF assms(1), of esc]
  by (simp add: parse_def)

section \<open>The parser yields well-formed values\<close>

lemma elements_inv:
  assumes "elements p cs = Some (vs, r)"
  shows "\<exists>v r1. p cs = Some (v, r1) \<and>
           ((skip_ws r1 = CHR '']'' # r \<and> vs = [v]) \<or>
            (\<exists>r2 vs'. skip_ws r1 = CHR '','' # r2 \<and> elements p (skip_ws r2) = Some (vs', r) \<and> vs = v # vs'))"
  using assms
  by (subst (asm) elements.simps) (auto split: list.splits if_splits option.splits)

lemma members_inv:
  assumes "members p cs = Some (kvs, r)"
  shows "\<exists>t k r1 r2 v r3. cs = CHR 0x22 # t \<and> lex_string t = Some (k, r1) \<and>
           skip_ws r1 = CHR '':'' # r2 \<and> p (skip_ws r2) = Some (v, r3) \<and>
           ((skip_ws r3 = CHR ''}'' # r \<and> kvs = [(k, v)]) \<or>
            (\<exists>r4 kvs'. skip_ws r3 = CHR '','' # r4 \<and> members p (skip_ws r4) = Some (kvs', r) \<and>
               kvs = (k, v) # kvs'))"
  using assms
  by (subst (asm) members.simps) (auto split: list.splits if_splits option.splits simp del: lex_string.simps)

lemma elements_all:
  assumes "\<And>x v r. p x = Some (v, r) \<Longrightarrow> Q v"
  shows "elements p cs = Some (vs, r) \<Longrightarrow> list_all Q vs"
proof (induction vs arbitrary: cs)
  case Nil
  then show ?case by simp
next
  case (Cons v vs)
  from elements_inv [OF Cons.prems] assms Cons.IH show ?case by auto
qed

lemma members_all:
  assumes "\<And>x v r. p x = Some (v, r) \<Longrightarrow> Q v"
  shows "members p cs = Some (kvs, r) \<Longrightarrow> list_all (\<lambda>kv. utf8 (fst kv) \<and> Q (snd kv)) kvs"
proof (induction kvs arbitrary: cs)
  case Nil
  then show ?case by simp
next
  case (Cons kv kvs)
  from members_inv [OF Cons.prems] assms Cons.IH lex_string_utf8 show ?case by fastforce
qed

lemma parse_value_object_inv:
  assumes "parse_value d (CHR ''{'' # t) = Some (v, r)"
  shows "0 < d \<and> (\<exists>c1 r1. skip_ws t = c1 # r1 \<and>
           ((c1 = CHR ''}'' \<and> v = JObj [] \<and> r = r1) \<or>
            (\<exists>kvs. members (\<lambda>x. parse_value (d - 1) x) (c1 # r1) = Some (kvs, r) \<and> v = JObj kvs)))"
proof -
  from assms have d: "0 < d" by (subst (asm) parse_value.simps) (simp split: if_splits)
  from assms d obtain c1 r1 where s: "skip_ws t = c1 # r1"
    by (subst (asm) parse_value.simps) (simp split: list.splits)
  from assms d s show ?thesis
    by (subst (asm) parse_value.simps) (simp split: if_splits option.splits prod.splits)
qed

lemma parse_value_array_inv:
  assumes "parse_value d (CHR ''['' # t) = Some (v, r)"
  shows "0 < d \<and> (\<exists>c1 r1. skip_ws t = c1 # r1 \<and>
           ((c1 = CHR '']'' \<and> v = JArr [] \<and> r = r1) \<or>
            (\<exists>vs. elements (\<lambda>x. parse_value (d - 1) x) (c1 # r1) = Some (vs, r) \<and> v = JArr vs)))"
proof -
  from assms have d: "0 < d" by (subst (asm) parse_value.simps) (simp split: if_splits)
  from assms d obtain c1 r1 where s: "skip_ws t = c1 # r1"
    by (subst (asm) parse_value.simps) (simp split: list.splits)
  from assms d s show ?thesis
    by (subst (asm) parse_value.simps) (simp split: if_splits option.splits prod.splits)
qed

lemma parse_value_string_inv:
  assumes "parse_value d (CHR 0x22 # t) = Some (v, r)"
  shows "\<exists>s. lex_string t = Some (s, r) \<and> v = JStr s"
  using assms by (simp add: parse_value_string split: option.splits prod.splits)

lemma parse_value_literal_inv:
  assumes "parse_value d (c # t) = Some (v, r)" and "c = CHR ''t'' \<or> c = CHR ''f'' \<or> c = CHR ''n''"
  shows "(v = JNull \<or> v = JBool True \<or> v = JBool False) \<and> length r < length (c # t)"
  using assms by (auto simp: parse_value_literal lex_literal_def split: if_splits)

lemma parse_value_number_inv:
  assumes "parse_value d (c # t) = Some (v, r)"
    and "c \<noteq> CHR ''{''" "c \<noteq> CHR ''[''" "c \<noteq> CHR 0x22" "c \<noteq> CHR ''t''" "c \<noteq> CHR ''f''" "c \<noteq> CHR ''n''"
  shows "\<exists>l. lex_number (c # t) = Some (l, r) \<and> v = JNum l"
  using assms by (subst (asm) parse_value.simps) (simp split: if_splits option.splits prod.splits)

lemma parse_value_cases:
  assumes "parse_value d cs = Some (v, r)"
  obtains (obj) t where "cs = CHR ''{'' # t"
  | (arr) t where "cs = CHR ''['' # t"
  | (str) t where "cs = CHR 0x22 # t"
  | (lit) c t where "cs = c # t" "c = CHR ''t'' \<or> c = CHR ''f'' \<or> c = CHR ''n''"
  | (num) c t where "cs = c # t" "c \<noteq> CHR ''{''" "c \<noteq> CHR ''[''" "c \<noteq> CHR 0x22" "c \<noteq> CHR ''t''"
      "c \<noteq> CHR ''f''" "c \<noteq> CHR ''n''"
proof -
  from assms obtain c t where "cs = c # t" by (cases cs) (simp_all add: parse_value.simps)
  then show ?thesis using that by blast
qed

lemma parse_value_wellformed: "parse_value d cs = Some (v, r) \<Longrightarrow> wellformed v \<and> fits d v"
proof (induction d arbitrary: cs v r rule: less_induct)
  case (less d)
  have ih: "wellformed v' \<and> fits (d - 1) v'" if "0 < d" "parse_value (d - 1) x = Some (v', r')" for x v' r'
    using less.IH [of "d - 1" x v' r'] that by simp
  from less.prems show ?case
  proof (cases rule: parse_value_cases)
    case (obj t)
    from parse_value_object_inv [OF less.prems [unfolded obj]] obtain c1 r1 where d: "0 < d"
      and alt: "(c1 = CHR ''}'' \<and> v = JObj [] \<and> r = r1) \<or>
            (\<exists>kvs. members (\<lambda>x. parse_value (d - 1) x) (c1 # r1) = Some (kvs, r) \<and> v = JObj kvs)"
      by blast
    from alt show ?thesis
    proof (elim disjE exE conjE)
      fix kvs assume e: "members (\<lambda>x. parse_value (d - 1) x) (c1 # r1) = Some (kvs, r)" and v: "v = JObj kvs"
      have "list_all (\<lambda>kv. utf8 (fst kv) \<and> (wellformed (snd kv) \<and> fits (d - 1) (snd kv))) kvs"
        by (rule members_all [OF _ e]) (rule ih [OF d])
      then show ?thesis using d v by (simp add: list_all_iff)
    qed (use d in simp)
  next
    case (arr t)
    from parse_value_array_inv [OF less.prems [unfolded arr]] obtain c1 r1 where d: "0 < d"
      and alt: "(c1 = CHR '']'' \<and> v = JArr [] \<and> r = r1) \<or>
            (\<exists>vs. elements (\<lambda>x. parse_value (d - 1) x) (c1 # r1) = Some (vs, r) \<and> v = JArr vs)"
      by blast
    from alt show ?thesis
    proof (elim disjE exE conjE)
      fix vs assume e: "elements (\<lambda>x. parse_value (d - 1) x) (c1 # r1) = Some (vs, r)" and v: "v = JArr vs"
      have "list_all (\<lambda>v. wellformed v \<and> fits (d - 1) v) vs"
        by (rule elements_all [OF _ e]) (rule ih [OF d])
      then show ?thesis using d v by (simp add: list_all_iff)
    qed (use d in simp)
  next
    case (str t)
    from parse_value_string_inv [OF less.prems [unfolded str]] lex_string_utf8 show ?thesis by auto
  next
    case (lit c t)
    from parse_value_literal_inv [OF less.prems [unfolded lit(1)] lit(2)] show ?thesis by auto
  next
    case (num c t)
    from parse_value_number_inv [OF less.prems [unfolded num(1)] num(2-)] number_parse(1)
    show ?thesis by auto
  qed
qed

lemma parse_wellformed: "parse b = Some v \<Longrightarrow> wellformed v \<and> fits maxNestingDepth v"
  by (auto simp: parse_def split: option.splits if_splits dest: parse_value_wellformed)

subsection \<open>A value parser never returns more input than it was given\<close>

lemma elements_shorter: "elements p cs = Some (vs, r) \<Longrightarrow> length r < length cs"
proof (induction vs arbitrary: cs)
  case Nil
  from elements_inv [OF this] show ?case by auto
next
  case (Cons v vs)
  from Cons.prems obtain v0 r1 where p: "p cs = Some (v0, r1)" and g: "length r1 \<le> length cs"
    by (subst (asm) elements.simps) (auto split: option.splits if_splits)
  from elements_inv [OF Cons.prems] p
  consider "skip_ws r1 = CHR '']'' # r" | r2 vs' where "skip_ws r1 = CHR '','' # r2"
    "elements p (skip_ws r2) = Some (vs', r)" "v # vs = v0 # vs'" by auto
  then show ?case
  proof cases
    case 1
    from skip_ws_Cons_shorter [OF this] g show ?thesis by simp
  next
    case 2
    from Cons.IH [of "skip_ws r2"] 2 have "length r < length (skip_ws r2)" by simp
    with skip_ws_length [of r2] skip_ws_Cons_shorter [OF 2(1)] g show ?thesis by simp
  qed
qed

lemma members_shorter: "members p cs = Some (kvs, r) \<Longrightarrow> length r < length cs"
proof (induction kvs arbitrary: cs)
  case Nil
  from members_inv [OF this] show ?case by auto
next
  case (Cons kv kvs)
  from members_inv [OF Cons.prems] obtain t k r1 r2 v r3 where
    cs: "cs = CHR 0x22 # t" and k: "lex_string t = Some (k, r1)" and c: "skip_ws r1 = CHR '':'' # r2"
    and p: "p (skip_ws r2) = Some (v, r3)"
    and alt: "(skip_ws r3 = CHR ''}'' # r \<and> kv # kvs = [(k, v)]) \<or>
            (\<exists>r4 kvs'. skip_ws r3 = CHR '','' # r4 \<and> members p (skip_ws r4) = Some (kvs', r) \<and>
               kv # kvs = (k, v) # kvs')" by blast
  from Cons.prems cs k c p have g: "length r3 \<le> length (skip_ws r2)"
    by (subst (asm) members.simps) (auto split: if_splits simp del: lex_string.simps)
  have a: "length r3 < length cs"
    using g skip_ws_length [of r2] skip_ws_Cons_shorter [OF c] lex_string_shorter [OF k] cs by simp
  from alt show ?case
  proof (elim disjE exE conjE)
    assume "skip_ws r3 = CHR ''}'' # r"
    from skip_ws_Cons_shorter [OF this] a show ?thesis by simp
  next
    fix r4 kvs' assume s: "skip_ws r3 = CHR '','' # r4"
      and m: "members p (skip_ws r4) = Some (kvs', r)" and e: "kv # kvs = (k, v) # kvs'"
    from Cons.IH [of "skip_ws r4"] m e have "length r < length (skip_ws r4)" by simp
    with skip_ws_length [of r4] skip_ws_Cons_shorter [OF s] a show ?thesis by simp
  qed
qed

lemma parse_value_shorter: "parse_value d cs = Some (v, r) \<Longrightarrow> length r < length cs"
proof -
  assume a: "parse_value d cs = Some (v, r)"
  then show ?thesis
  proof (cases rule: parse_value_cases)
    case (obj t)
    from parse_value_object_inv [OF a [unfolded obj]] obtain c1 r1 where s: "skip_ws t = c1 # r1"
      and alt: "(c1 = CHR ''}'' \<and> v = JObj [] \<and> r = r1) \<or>
            (\<exists>kvs. members (\<lambda>x. parse_value (d - 1) x) (c1 # r1) = Some (kvs, r) \<and> v = JObj kvs)"
      by blast
    have "length r \<le> length (c1 # r1)" using alt by (auto dest: members_shorter)
    with skip_ws_length [of t] s obj show ?thesis by simp
  next
    case (arr t)
    from parse_value_array_inv [OF a [unfolded arr]] obtain c1 r1 where s: "skip_ws t = c1 # r1"
      and alt: "(c1 = CHR '']'' \<and> v = JArr [] \<and> r = r1) \<or>
            (\<exists>vs. elements (\<lambda>x. parse_value (d - 1) x) (c1 # r1) = Some (vs, r) \<and> v = JArr vs)"
      by blast
    have "length r \<le> length (c1 # r1)" using alt by (auto dest: elements_shorter)
    with skip_ws_length [of t] s arr show ?thesis by simp
  next
    case (str t)
    from parse_value_string_inv [OF a [unfolded str]] lex_string_shorter str show ?thesis by fastforce
  next
    case (lit c t)
    from parse_value_literal_inv [OF a [unfolded lit(1)] lit(2)] lit(1) show ?thesis by simp
  next
    case (num c t)
    from parse_value_number_inv [OF a [unfolded num(1)] num(2-)] obtain l
      where l: "lex_number cs = Some (l, r)" using num(1) by auto
    from number_parse [OF l] number_head [of l] show ?thesis by auto
  qed
qed

section \<open>Maps\<close>

text \<open>A value as the decoder stores it: the keys of every object increasing.\<close>

fun canonical :: "json \<Rightarrow> bool" where
  "canonical (JArr vs) \<longleftrightarrow> list_all canonical vs"
| "canonical (JObj kvs) \<longleftrightarrow> sorted_wrt (<) (map fst kvs) \<and> list_all (\<lambda>kv. canonical (snd kv)) kvs"
| "canonical v \<longleftrightarrow> True"

lemma keys_map_set: "set (map fst (map_set k v m)) = insert k (set (map fst m))"
proof -
  have "dom (map_of (map_set k v m)) = insert k (dom (map_of m))" by (simp add: map_of_map_set)
  then show ?thesis by (simp add: dom_map_of_conv_image_fst)
qed

lemma sorted_map_set:
  "sorted_wrt (<) (map fst m) \<Longrightarrow> sorted_wrt (<) (map fst (map_set k v m))"
proof (induction m)
  case Nil
  show ?case by simp
next
  case (Cons kv m)
  obtain k' v' where kv: "kv = (k', v')" by (cases kv)
  from Cons.prems kv have above: "\<forall>x \<in> set (map fst m). k' < x" and tail: "sorted_wrt (<) (map fst m)"
    by simp_all
  consider "k = k'" | "k < k'" | "k' < k" by (metis linorder_cases)
  then show ?case
  proof cases
    case 1
    with Cons.prems kv show ?thesis by simp
  next
    case 2
    with above have "\<forall>x \<in> set (map fst m). k < x" by (meson order.strict_trans)
    with 2 Cons.prems kv show ?thesis by auto
  next
    case 3
    have "set (map fst (map_set k v m)) = insert k (set (map fst m))" by (rule keys_map_set)
    with 3 above have "\<forall>x \<in> set (map fst (map_set k v m)). k' < x" by simp
    moreover from 3 have "\<not> k < k'" "k \<noteq> k'" by auto
    ultimately show ?thesis using Cons.IH [OF tail] kv by (simp del: set_map)
  qed
qed

lemma list_all_map_set: "P (k, v) \<Longrightarrow> list_all P m \<Longrightarrow> list_all P (map_set k v m)"
  by (induction m) auto

lemma sorted_store_members:
  "sorted_wrt (<) (map fst m) \<Longrightarrow> sorted_wrt (<) (map fst (store_members m kvs))"
  by (induction m kvs rule: store_members.induct) (simp_all add: sorted_map_set)

lemma list_all_store_members:
  "list_all P m \<Longrightarrow> list_all P kvs \<Longrightarrow> list_all P (store_members m kvs)"
  by (induction m kvs rule: store_members.induct) (simp_all add: list_all_map_set)

lemma map_set_last: "\<forall>x \<in> set (map fst m). x < k \<Longrightarrow> map_set k v m = m @ [(k, v)]"
  by (induction m) auto

lemma store_members_sorted:
  "sorted_wrt (<) (map fst (m @ kvs)) \<Longrightarrow> store_members m kvs = m @ kvs"
proof (induction kvs arbitrary: m)
  case Nil
  show ?case by simp
next
  case (Cons kv kvs)
  obtain k v where kv: "kv = (k, v)" by (cases kv)
  from Cons.prems kv have "\<forall>x \<in> set (map fst m). x < k"
    by (auto simp: sorted_wrt_append)
  then have ms: "map_set k v m = m @ [(k, v)]" by (rule map_set_last)
  from Cons.prems kv have "sorted_wrt (<) (map fst ((m @ [(k, v)]) @ kvs))" by simp
  from Cons.IH [OF this] ms kv show ?case by simp
qed

lemma map_set_twice: "map_set k v (map_set k v' m) = map_set k v m"
  by (induction m) auto

section \<open>From the parsed text to the stored value\<close>

lemma to_value_wellformed: "wellformed v \<Longrightarrow> wellformed (to_value v)"
proof (induction v)
  case (JArr vs)
  then show ?case by (simp add: list_all_iff)
next
  case (JObj kvs)
  let ?P = "\<lambda>kv. utf8 (fst kv) \<and> wellformed (snd kv)"
  have "list_all ?P (map (\<lambda>kv. (fst kv, to_value (snd kv))) kvs)"
    using JObj by (auto simp: list_all_iff snds.simps)
  then show ?case by (simp add: list_all_store_members)
qed simp_all

lemma to_value_fits: "fits d v \<Longrightarrow> fits d (to_value v)"
proof (induction v arbitrary: d)
  case (JArr vs)
  then show ?case by (simp add: list_all_iff)
next
  case (JObj kvs)
  let ?P = "\<lambda>kv. fits (d - 1) (snd kv)"
  have "list_all ?P (map (\<lambda>kv. (fst kv, to_value (snd kv))) kvs)"
    using JObj by (auto simp: list_all_iff snds.simps)
  then show ?case using JObj.prems by (simp add: list_all_store_members)
qed simp_all

lemma to_value_canonical: "canonical (to_value v)"
proof (induction v)
  case (JArr vs)
  then show ?case by (simp add: list_all_iff)
next
  case (JObj kvs)
  let ?P = "\<lambda>kv. canonical (snd kv)"
  have "list_all ?P (map (\<lambda>kv. (fst kv, to_value (snd kv))) kvs)"
    using JObj by (auto simp: list_all_iff snds.simps)
  then show ?case by (simp add: list_all_store_members sorted_store_members)
qed simp_all

lemma canonical_to_value: "canonical v \<Longrightarrow> to_value v = v"
proof (induction v)
  case (JArr vs)
  then show ?case by (simp add: list_all_iff map_idI)
next
  case (JObj kvs)
  have "map (\<lambda>kv. (fst kv, to_value (snd kv))) kvs = kvs"
    using JObj by (intro map_idI) (auto simp: list_all_iff snds.simps)
  moreover have "store_members [] kvs = [] @ kvs"
    using JObj.prems by (intro store_members_sorted) simp
  ultimately show ?case by simp
qed simp_all

text \<open>An envelope as \<open>Unmarshal_genMap\<close> stores it.\<close>

definition stored :: "genMap \<Rightarrow> bool" where
  "stored m \<longleftrightarrow> wellformed (JObj m) \<and> fits maxNestingDepth (JObj m) \<and> canonical (JObj m)"

lemma Unmarshal_genMap_stored:
  assumes "Unmarshal_genMap b [] = (m, None)"
  shows "stored m"
proof -
  from assms consider kvs where "parse b = Some (JObj kvs)" "JObj m = to_value (JObj kvs)"
    | "parse b = Some JNull" "m = []"
    by (auto simp: Unmarshal_genMap_def split: option.splits json.splits)
  then show ?thesis
  proof cases
    case 1
    from parse_wellformed [OF 1(1)] show ?thesis
      unfolding stored_def 1(2) by (simp only: to_value_wellformed to_value_fits to_value_canonical)
  next
    case 2
    then show ?thesis by (simp add: stored_def maxNestingDepth_def)
  qed
qed

lemma stored_encoded:
  assumes "stored m"
  shows "Valid (marshal esc (JObj m) @ [CHR 0x0A])"
    and "Unmarshal_genMap (marshal esc (JObj m) @ [CHR 0x0A]) [] = (m, None)"
proof -
  from assms have p: "parse (marshal esc (JObj m) @ [CHR 0x0A]) = Some (JObj m)"
    by (simp add: stored_def parse_encoded)
  then show "Valid (marshal esc (JObj m) @ [CHR 0x0A])" by (simp add: Valid_def)
  from assms have "canonical (JObj m)" by (simp add: stored_def)
  then have "to_value (JObj m) = JObj m" by (rule canonical_to_value)
  then have "store_members [] (map (\<lambda>kv. (fst kv, to_value (snd kv))) m) = m" by simp
  with p show "Unmarshal_genMap (marshal esc (JObj m) @ [CHR 0x0A]) [] = (m, None)"
    by (simp add: Unmarshal_genMap_def)
qed

section \<open>The text of a struct\<close>

lemma ascii_utf8: "\<forall>c \<in> set xs. c < CHR 0x80 \<Longrightarrow> utf8 xs"
  by (induction xs) auto

lemma hex_ascii: "i < 16 \<Longrightarrow> hex ! i < CHR 0x80"
proof -
  have "list_all (\<lambda>i. hex ! i < CHR 0x80) [0..<16]" by code_simp
  then show "i < 16 \<Longrightarrow> hex ! i < CHR 0x80" by (simp add: list_all_iff)
qed

lemma escape_byte_utf8: "b < CHR 0x80 \<Longrightarrow> utf8 (escape_byte b)"
proof -
  assume b: "b < CHR 0x80"
  then have "(of_char b :: nat) < 128" by (simp add: char_nat)
  then have "(of_char b :: nat) div 16 < 16" "(of_char b :: nat) mod 16 < 16" by simp_all
  then have "hex ! (of_char b div 16) < CHR 0x80" "hex ! (of_char b mod 16) < CHR 0x80"
    by (simp_all add: hex_ascii)
  with b show ?thesis by (intro ascii_utf8) (auto simp: escape_byte_def)
qed

lemma utf8_string_body: "utf8 s \<Longrightarrow> utf8 (string_body esc s)"
proof (induction esc s rule: string_body.induct)
  case (1 esc)
  show ?case by simp
next
  case (2 esc b src)
  let ?n = "rune_size (b # src)"
  show ?case
  proof (cases "b < CHR 0x80")
    case True
    with "2.prems" have "utf8 src" by simp
    from "2.IH"(1) [OF True this] True escape_byte_utf8 [OF True] show ?thesis
      by (auto intro: utf8_append)
  next
    case hi: False
    with "2.prems" have n1: "?n \<noteq> 1" and rest: "utf8 (drop (?n - 1) src)" by simp_all
    have esc: "utf8 (CHR 0x5C # ''u2028'')" "utf8 (CHR 0x5C # ''u2029'')" by simp_all
    show ?thesis
    proof (cases "take 3 (b # src) = LINE_SEPARATOR")
      case True
      from rest separator_size(1) [OF disjI1 [OF True]] have "utf8 (drop 2 src)" by simp
      from "2.IH"(3) [OF hi n1 True this] hi n1 True utf8_append [OF esc(1)] show ?thesis by simp
    next
      case ls: False
      show ?thesis
      proof (cases "take 3 (b # src) = PARAGRAPH_SEPARATOR")
        case True
        from rest separator_size(1) [OF disjI2 [OF True]] have "utf8 (drop 2 src)" by simp
        from "2.IH"(4) [OF hi n1 ls True this] hi n1 ls True utf8_append [OF esc(2)] show ?thesis
          by simp
      next
        case False
        from "2.IH"(5) [OF hi n1 ls False rest] utf8_rune [OF n1]
        have "utf8 (take ?n (b # src) @ string_body esc (drop (?n - 1) src))" by (intro utf8_append)
        with hi n1 ls False show ?thesis by simp
      qed
    qed
  qed
qed

lemma utf8_appendString: "utf8 dst \<Longrightarrow> utf8 s \<Longrightarrow> utf8 (appendString dst s esc)"
  unfolding appendString_def
  by (intro utf8_append utf8_string_body) simp_all

text \<open>The struct with the environment overwritten, and its text.\<close>

definition scrubbed :: "string \<Rightarrow> ProcessParameters" where
  "scrubbed c = \<lparr>CommandLine = c, Environment = [(ScrubbedReplacement, ScrubbedReplacement)]\<rparr>"

lemma scrubbed_text:
  \<open>marshal False (ProcessParameters_value (scrubbed c)) =
     ''{"CommandLine":'' @ appendString [] c False @ '',"Environment":{"<scrubbed>":"<scrubbed>"}}''\<close>
  by (simp add: scrubbed_def ProcessParameters_value_def ScrubbedReplacement_def marshal.simps
      appendString_def safe_def)

lemma scrubbed_utf8: "utf8 c \<Longrightarrow> utf8 (marshal False (ProcessParameters_value (scrubbed c)) @ [CHR 0x0A])"
  unfolding scrubbed_text
  by (intro utf8_append utf8_appendString) simp_all

lemma scrubbed_keyword: "hasKeywords (marshal False (ProcessParameters_value (scrubbed c)) @ [CHR 0x0A])"
proof -
  have "sublist ''Environment''
      ((CHR ''{'' # CHR 0x22 # ''CommandLine'' @ CHR 0x22 # '':'' @ appendString [] c False @ [CHR '','', CHR 0x22]) @
        ''Environment'' @ (CHR 0x22 # '':{'' @ CHR 0x22 # ''<scrubbed>'' @ CHR 0x22 # '':'' @ CHR 0x22 # ''<scrubbed>'' @ CHR 0x22 # ''}}'' @ [CHR 0x0A]))"
    by (rule sublist_appendI)
  then show ?thesis by (simp add: hasKeywords_iff scrubbed_text)
qed

lemma equalFold_fields [simp]:
  "equalFold ''CommandLine'' ''CommandLine''" "\<not> equalFold ''CommandLine'' ''Environment''"
  "equalFold ''Environment'' ''Environment''"
  by (simp_all add: equalFold_def fold_byte_def)

lemma scrubbed_parse:
  assumes "utf8 c"
  shows "parse (marshal False (ProcessParameters_value (scrubbed c)) @ [CHR 0x0A]) =
         Some (ProcessParameters_value (scrubbed c))"
  using assms
  by (intro parse_encoded)
    (simp_all add: scrubbed_def ProcessParameters_value_def ScrubbedReplacement_def maxNestingDepth_def)

lemma scrubbed_decoded:
  assumes "utf8 c"
  shows "Valid (marshal False (ProcessParameters_value (scrubbed c)) @ [CHR 0x0A])"
    and "Unmarshal_ProcessParameters (marshal False (ProcessParameters_value (scrubbed c)) @ [CHR 0x0A])
           ProcessParameters_zero = (scrubbed c, None)"
proof -
  note p = scrubbed_parse [OF assms]
  then show "Valid (marshal False (ProcessParameters_value (scrubbed c)) @ [CHR 0x0A])"
    by (simp add: Valid_def)
  show "Unmarshal_ProcessParameters (marshal False (ProcessParameters_value (scrubbed c)) @ [CHR 0x0A])
           ProcessParameters_zero = (scrubbed c, None)"
    unfolding Unmarshal_ProcessParameters_def p
    by (simp add: ProcessParameters_value_def scrubbed_def ProcessParameters_zero_def)
qed

lemma store_fields_utf8:
  "utf8 (CommandLine (fst acc)) \<Longrightarrow> list_all (\<lambda>kv. wellformed (snd kv)) kvs \<Longrightarrow>
   utf8 (CommandLine (fst (store_fields acc kvs)))"
proof (induction acc kvs rule: store_fields.induct)
  case (1 acc)
  then show ?case by simp
next
  case (2 pp saved key v kvs)
  then show ?case by (cases v) (auto split: prod.splits)
qed

lemma Unmarshal_ProcessParameters_utf8:
  "Unmarshal_ProcessParameters s ProcessParameters_zero = (pp, e) \<Longrightarrow> utf8 (CommandLine pp)"
proof -
  assume a: "Unmarshal_ProcessParameters s ProcessParameters_zero = (pp, e)"
  show ?thesis
  proof (cases "parse s")
    case None
    with a show ?thesis by (auto simp: Unmarshal_ProcessParameters_def ProcessParameters_zero_def)
  next
    case (Some v)
    show ?thesis
    proof (cases v)
      case (JObj kvs)
      from parse_wellformed [OF Some] JObj have "list_all (\<lambda>kv. wellformed (snd kv)) kvs"
        by (simp add: list_all_iff)
      from store_fields_utf8 [of "(ProcessParameters_zero, None)" kvs, OF _ this] a Some JObj
      show ?thesis by (simp add: Unmarshal_ProcessParameters_def ProcessParameters_zero_def)
    qed (use a Some in \<open>auto simp: Unmarshal_ProcessParameters_def ProcessParameters_zero_def\<close>)
  qed
qed

lemma ScrubProcessParameters_cases:
  assumes "ScrubProcessParameters g s = (out, None)"
  obtains (unchanged) "out = s" "\<not> IsScrubbingEnabled g \<or> \<not> hasKeywords s \<or> \<not> Valid s"
  | (encoded) pp where "IsScrubbingEnabled g" "hasKeywords s" "Valid s"
      "Unmarshal_ProcessParameters s ProcessParameters_zero = (pp, None)"
      "out = marshal False (ProcessParameters_value (scrubbed (CommandLine pp))) @ [CHR 0x0A]"
proof (cases "\<not> IsScrubbingEnabled g \<or> \<not> hasKeywords s \<or> \<not> Valid s")
  case True
  with assms have "out = s" by (auto simp: ScrubProcessParameters_def)
  then show ?thesis using True by (rule unchanged)
next
  case False
  then have c: "IsScrubbingEnabled g" "hasKeywords s" "Valid s" by simp_all
  obtain pp e where u: "Unmarshal_ProcessParameters s ProcessParameters_zero = (pp, e)"
    by (cases "Unmarshal_ProcessParameters s ProcessParameters_zero")
  with assms c have e: "e = None"
    and o: "out = marshal False (ProcessParameters_value
        (pp\<lparr>Environment := [(ScrubbedReplacement, ScrubbedReplacement)]\<rparr>)) @ [CHR 0x0A]"
    by (auto simp: ScrubProcessParameters_run split: option.splits)
  have "pp\<lparr>Environment := [(ScrubbedReplacement, ScrubbedReplacement)]\<rparr> = scrubbed (CommandLine pp)"
    by (simp add: scrubbed_def)
  with o have "out = marshal False (ProcessParameters_value (scrubbed (CommandLine pp))) @ [CHR 0x0A]"
    by simp
  with c u e show ?thesis by (intro encoded) simp_all
qed

text \<open>Scrubbing a scrubbed string changes nothing.\<close>

lemma ScrubProcessParameters_again:
  assumes "ScrubProcessParameters g s = (out, None)"
  shows "ScrubProcessParameters g out = (out, None)"
  using assms
proof (cases rule: ScrubProcessParameters_cases)
  case unchanged
  with assms show ?thesis by simp
next
  case (encoded pp)
  have u: "utf8 (CommandLine pp)" by (rule Unmarshal_ProcessParameters_utf8 [OF encoded(4)])
  note d = scrubbed_decoded [OF u]
  have "scrubbed (CommandLine pp)\<lparr>Environment := [(ScrubbedReplacement, ScrubbedReplacement)]\<rparr> =
      scrubbed (CommandLine pp)" by (simp add: scrubbed_def)
  with ScrubProcessParameters_run [OF encoded(1) scrubbed_keyword d(1)] d(2)
  show ?thesis unfolding encoded(5) by simp
qed

section \<open>Scrubbing what was scrubbed\<close>

definition good :: "nat \<Rightarrow> json \<Rightarrow> bool" where
  "good d v \<longleftrightarrow> wellformed v \<and> fits d v \<and> canonical v"

lemma stored_good: "stored m \<longleftrightarrow> good maxNestingDepth (JObj m)"
  by (simp add: stored_def good_def)

lemma good_lookup:
  assumes "good d (JObj m)" and "map_of m k = Some v"
  shows "good (d - 1) v"
proof -
  from assms(2) have "(k, v) \<in> set m" by (rule map_of_SomeD)
  with assms(1) show ?thesis by (auto simp: good_def list_all_iff)
qed

lemma good_update:
  assumes "good d (JObj m)" and "good (d - 1) v" and "utf8 k"
  shows "good d (JObj (map_set k v m))"
  using assms by (simp add: good_def list_all_map_set sorted_map_set)

lemma good_positive: "good d (JObj m) \<Longrightarrow> 0 < d"
  by (simp add: good_def)

subsection \<open>Container create\<close>

lemma scrubLinuxHostedSystem_inv:
  assumes "scrubLinuxHostedSystem m = (m', None)"
  shows "isRequestBase m \<and> (\<exists>cc oci pr old.
           map_of m ''ContainerConfig'' = Some (JObj cc) \<and>
           map_of cc ''OciSpecification'' = Some (JObj oci) \<and>
           map_of oci ''process'' = Some (JObj pr) \<and>
           map_of pr ''env'' = Some old)"
proof -
  from assms have b: "isRequestBase m" by (auto simp: scrubLinuxHostedSystem_def split: if_splits)
  have "\<not> \<not> (\<exists>cc oci pr old.
           map_of m ''ContainerConfig'' = Some (JObj cc) \<and>
           map_of cc ''OciSpecification'' = Some (JObj oci) \<and>
           map_of oci ''process'' = Some (JObj pr) \<and>
           map_of pr ''env'' = Some old)"
  proof
    assume "\<not> (\<exists>cc oci pr old.
           map_of m ''ContainerConfig'' = Some (JObj cc) \<and>
           map_of cc ''OciSpecification'' = Some (JObj oci) \<and>
           map_of oci ''process'' = Some (JObj pr) \<and>
           map_of pr ''env'' = Some old)"
    from scrubLinuxHostedSystem_unknown [OF this] assms show False by simp
  qed
  with b show ?thesis by blast
qed

lemma scrubLinuxHostedSystem_again:
  assumes "stored m" and "scrubLinuxHostedSystem m = (m', None)"
  shows "stored m' \<and> scrubLinuxHostedSystem m' = (m', None)"
proof -
  let ?D = maxNestingDepth
  let ?new = "JArr [JStr ScrubbedReplacement]"
  from scrubLinuxHostedSystem_inv [OF assms(2)] obtain cc oci pr old where b: "isRequestBase m"
    and cc: "map_of m ''ContainerConfig'' = Some (JObj cc)"
    and oci: "map_of cc ''OciSpecification'' = Some (JObj oci)"
    and pr: "map_of oci ''process'' = Some (JObj pr)"
    and env: "map_of pr ''env'' = Some old" by blast
  let ?pr = "map_set ''env'' ?new pr"
  let ?oci = "map_set ''process'' (JObj ?pr) oci"
  let ?cc = "map_set ''OciSpecification'' (JObj ?oci) cc"
  let ?m = "map_set ''ContainerConfig'' (JObj ?cc) m"
  have m': "m' = ?m" using scrubLinuxHostedSystem_found [OF b cc oci pr env] assms(2) by simp
  have g0: "good ?D (JObj m)" using assms(1) by (simp add: stored_good)
  have g1: "good (?D - 1) (JObj cc)" by (rule good_lookup [OF g0 cc])
  have g2: "good (?D - 1 - 1) (JObj oci)" by (rule good_lookup [OF g1 oci])
  have g3: "good (?D - 1 - 1 - 1) (JObj pr)" by (rule good_lookup [OF g2 pr])
  have new: "good (?D - 1 - 1 - 1 - 1) ?new"
    by (simp add: good_def ScrubbedReplacement_def maxNestingDepth_def)
  have h3: "good (?D - 1 - 1 - 1) (JObj ?pr)" by (rule good_update [OF g3 new]) simp
  have h2: "good (?D - 1 - 1) (JObj ?oci)" by (rule good_update [OF g2 h3]) simp
  have h1: "good (?D - 1) (JObj ?cc)" by (rule good_update [OF g1 h2]) simp
  have h0: "good ?D (JObj ?m)" by (rule good_update [OF g0 h1]) simp
  have b': "isRequestBase ?m" using b by (simp add: isRequestBase_iff map_of_map_set)
  have "scrubLinuxHostedSystem ?m = (?m, None)"
    using scrubLinuxHostedSystem_found [OF b', of ?cc ?oci ?pr ?new]
    by (simp add: map_of_map_set map_set_twice)
  with h0 show ?thesis unfolding m' by (simp add: stored_good)
qed

subsection \<open>Container exec\<close>

lemma scrubExecuteProcess_inv:
  assumes "scrubExecuteProcess g m = (m', None)"
  shows "isRequestBase m \<and> (\<exists>st s s'.
           map_of m ''Settings'' = Some (JObj st) \<and>
           map_of st ''ProcessParameters'' = Some (JStr s) \<and>
           ScrubProcessParameters g s = (s', None) \<and>
           m' = map_set ''Settings'' (JObj (map_set ''ProcessParameters'' (JStr s') st)) m)"
proof -
  from assms have b: "isRequestBase m" by (auto simp: scrubExecuteProcess_def split: if_splits)
  from assms b obtain st where st: "map_of m ''Settings'' = Some (JObj st)"
    by (auto simp: scrubExecuteProcess_def index_True_iff split: prod.splits bool.splits)
  from assms b st obtain v where v: "map_of st ''ProcessParameters'' = Some v"
    by (auto simp: scrubExecuteProcess_def index_object split: option.splits)
  from assms b st v obtain s where s: "v = JStr s"
    by (cases v) (auto simp: scrubExecuteProcess_def index_object)
  from assms scrubExecuteProcess_string [OF b st v [unfolded s], of g] show ?thesis
    using b st v s by (auto split: prod.splits option.splits)
qed

lemma scrubExecuteProcess_again:
  assumes "stored m" and "scrubExecuteProcess g m = (m', None)"
  shows "stored m' \<and> scrubExecuteProcess g m' = (m', None)"
proof -
  let ?D = maxNestingDepth
  from scrubExecuteProcess_inv [OF assms(2)] obtain st s s' where b: "isRequestBase m"
    and st: "map_of m ''Settings'' = Some (JObj st)"
    and pp: "map_of st ''ProcessParameters'' = Some (JStr s)"
    and sc: "ScrubProcessParameters g s = (s', None)"
    and m': "m' = map_set ''Settings'' (JObj (map_set ''ProcessParameters'' (JStr s') st)) m"
    by blast
  let ?st = "map_set ''ProcessParameters'' (JStr s') st"
  have g0: "good ?D (JObj m)" using assms(1) by (simp add: stored_good)
  have g1: "good (?D - 1) (JObj st)" by (rule good_lookup [OF g0 st])
  have "good (?D - 1 - 1) (JStr s)" by (rule good_lookup [OF g1 pp])
  then have us: "utf8 s" by (simp add: good_def)
  have "utf8 s'"
    using sc
  proof (cases rule: ScrubProcessParameters_cases)
    case unchanged
    with us show ?thesis by simp
  next
    case (encoded p)
    from scrubbed_utf8 [OF Unmarshal_ProcessParameters_utf8 [OF encoded(4)]] encoded(5)
    show ?thesis by simp
  qed
  then have new: "good (?D - 1 - 1) (JStr s')" by (simp add: good_def)
  have h1: "good (?D - 1) (JObj ?st)" by (rule good_update [OF g1 new]) simp
  have h0: "good ?D (JObj m')" unfolding m' by (rule good_update [OF g0 h1]) simp
  have b': "isRequestBase m'" using b by (simp add: m' isRequestBase_iff map_of_map_set)
  have "scrubExecuteProcess g m' = (m', None)"
    using scrubExecuteProcess_string [OF b', of ?st s' g] ScrubProcessParameters_again [OF sc]
    by (simp add: m' map_of_map_set map_set_twice)
  with h0 show ?thesis by (simp add: stored_good)
qed

subsection \<open>The dispatcher\<close>

lemma scrubBytes_cases:
  assumes "scrubBytes g b scrub = (out, None)"
  obtains (unchanged) "out = b" "\<not> IsScrubbingEnabled g \<or> \<not> hasKeywords b \<or> \<not> Valid b"
  | (encoded) m m' where "IsScrubbingEnabled g" "hasKeywords b" "Valid b"
      "Unmarshal_genMap b [] = (m, None)" "scrub m = (m', None)"
      "out = marshal False (JObj m') @ [CHR 0x0A]"
proof (cases "\<not> IsScrubbingEnabled g \<or> \<not> hasKeywords b \<or> \<not> Valid b")
  case True
  with assms have "out = b" by (auto simp: scrubBytes_def)
  then show ?thesis using True by (rule unchanged)
next
  case False
  then have c: "IsScrubbingEnabled g" "hasKeywords b" "Valid b" by simp_all
  obtain m e where u: "Unmarshal_genMap b [] = (m, e)" by (cases "Unmarshal_genMap b []")
  obtain m' e' where s: "scrub m = (m', e')" by (cases "scrub m")
  from assms c u s have "e = None" "e' = None" "out = marshal False (JObj m') @ [CHR 0x0A]"
    by (auto simp: scrubBytes_run split: option.splits)
  with c u s show ?thesis by (intro encoded) simp_all
qed

lemma scrubBytes_again:
  assumes again: "\<And>m m'. stored m \<Longrightarrow> scrub m = (m', None) \<Longrightarrow> stored m' \<and> scrub m' = (m', None)"
    and "scrubBytes g b scrub = (out, None)"
  shows "scrubBytes g out scrub = (out, None)"
  using assms(2)
proof (cases rule: scrubBytes_cases)
  case unchanged
  with assms(2) show ?thesis by simp
next
  case (encoded m m')
  from again [OF Unmarshal_genMap_stored [OF encoded(4)] encoded(5)]
  have st: "stored m'" and sc: "scrub m' = (m', None)" by simp_all
  note enc = stored_encoded [OF st, of False]
  show ?thesis
  proof (cases "hasKeywords out")
    case False
    then show ?thesis by (simp add: scrubBytes_def)
  next
    case True
    from scrubBytes_run [OF encoded(1) True, of scrub] enc sc show ?thesis
      unfolding encoded(6) by simp
  qed
qed


section \<open>The environment is replaced\<close>

definition parameters_two_entries :: bytes where
  \<open>parameters_two_entries = ''{"CommandLine":"x","Environment":{"A":"1","B":"2"}}''\<close>

text \<open>
  C3. The string is valid JSON and decodes into the struct \<open>pp\<close>; scrubbing is on and
  a keyword occurs in the string. Then \<open>ScrubProcessParameters\<close> returns, with no
  error, the text of the struct with \<^verbatim>\<open>CommandLine\<close> as decoded and \<^verbatim>\<open>Environment\<close>
  the one entry \<^verbatim>\<open>"<scrubbed>":"<scrubbed>"\<close>, whatever the environment held; and that
  text decodes to the struct \<open>pp\<close> with its environment replaced by that one entry.
\<close>

theorem ScrubProcessParameters_environment:
  assumes "IsScrubbingEnabled g" and "hasKeywords s" and "Valid s"
    and "Unmarshal_ProcessParameters s ProcessParameters_zero = (pp, None)"
  shows \<open>ScrubProcessParameters g s =
           (''{"CommandLine":'' @ appendString [] (CommandLine pp) False @
            '',"Environment":{"<scrubbed>":"<scrubbed>"}}'' @ [CHR 0x0A], None) \<and>
         Unmarshal_ProcessParameters (fst (ScrubProcessParameters g s)) ProcessParameters_zero =
           (\<lparr>CommandLine = CommandLine pp, Environment = [(''<scrubbed>'', ''<scrubbed>'')]\<rparr>, None)\<close>
proof -
  have sc: "pp\<lparr>Environment := [(ScrubbedReplacement, ScrubbedReplacement)]\<rparr> = scrubbed (CommandLine pp)"
    by (simp add: scrubbed_def)
  have run: "ScrubProcessParameters g s =
      (marshal False (ProcessParameters_value (scrubbed (CommandLine pp))) @ [CHR 0x0A], None)"
    using ScrubProcessParameters_run [OF assms(1-3)] assms(4) sc by simp
  have u: "utf8 (CommandLine pp)" by (rule Unmarshal_ProcessParameters_utf8 [OF assms(4)])
  have s: "scrubbed (CommandLine pp) =
      \<lparr>CommandLine = CommandLine pp, Environment = [(''<scrubbed>'', ''<scrubbed>'')]\<rparr>"
    by (simp add: scrubbed_def ScrubbedReplacement_def)
  have whole: \<open>ScrubProcessParameters g s =
      (''{"CommandLine":'' @ appendString [] (CommandLine pp) False @
       '',"Environment":{"<scrubbed>":"<scrubbed>"}}'' @ [CHR 0x0A], None)\<close>
    unfolding run scrubbed_text by simp
  have "Unmarshal_ProcessParameters (fst (ScrubProcessParameters g s)) ProcessParameters_zero =
      (scrubbed (CommandLine pp), None)"
    unfolding run fst_conv by (rule scrubbed_decoded(2) [OF u])
  with whole show ?thesis unfolding s by simp
qed

theorem ScrubProcessParameters_environment_witness:
  \<open>ScrubProcessParameters 1 parameters_two_entries = (''{"CommandLine":"x","Environment":{"<scrubbed>":"<scrubbed>"}}'' @ [CHR 0x0A], None) \<and>
   Unmarshal_ProcessParameters (fst (ScrubProcessParameters 1 parameters_two_entries)) ProcessParameters_zero =
     (\<lparr>CommandLine = ''x'', Environment = [(''<scrubbed>'', ''<scrubbed>'')]\<rparr>, None)\<close>
proof -
  have en: "IsScrubbingEnabled 1" by (simp add: IsScrubbingEnabled_def)
  have kw: "hasKeywords parameters_two_entries" and va: "Valid parameters_two_entries"
    unfolding parameters_two_entries_def by code_simp+
  have un: "Unmarshal_ProcessParameters parameters_two_entries ProcessParameters_zero =
      (\<lparr>CommandLine = ''x'', Environment = [(''A'', ''1''), (''B'', ''2'')]\<rparr>, None)"
    unfolding parameters_two_entries_def by code_simp
  from ScrubProcessParameters_environment [OF en kw va un] show ?thesis
    by (auto simp: appendString_def safe_def)
qed

section \<open>The nested parameters of container exec\<close>





definition exec_message_secret :: bytes where
  \<open>exec_message_secret = ''{"ActivityId":"a","ContainerId":"c","Settings":{"ProcessParameters":"{'' @ CHR 0x5C # ''"Environment'' @ CHR 0x5C # ''":{'' @ CHR 0x5C # ''"SECRET'' @ CHR 0x5C # ''":'' @ CHR 0x5C # ''"x'' @ CHR 0x5C # ''"}}"}}''\<close>





section \<open>Idempotence\<close>

text \<open>
  C8. Whenever one of the three operations returns a result with no error, the same
  operation applied to that result returns it again, byte for byte, with no error: the
  replacement entry and the replacement array are replaced by themselves.
\<close>

theorem scrubbing_idempotent:
  "(ScrubProcessParameters g s = (out1, None) \<longrightarrow> ScrubProcessParameters g out1 = (out1, None)) \<and>
   (ScrubBridgeCreate g b = (out2, None) \<longrightarrow> ScrubBridgeCreate g out2 = (out2, None)) \<and>
   (ScrubBridgeExecProcess g b' = (out3, None) \<longrightarrow> ScrubBridgeExecProcess g out3 = (out3, None))"
proof -
  have "ScrubProcessParameters g out1 = (out1, None)" if "ScrubProcessParameters g s = (out1, None)"
    using that by (rule ScrubProcessParameters_again)
  moreover have "ScrubBridgeCreate g out2 = (out2, None)" if "ScrubBridgeCreate g b = (out2, None)"
    using that unfolding ScrubBridgeCreate_def
    by (rule scrubBytes_again [where scrub = scrubLinuxHostedSystem, rotated])
      (rule scrubLinuxHostedSystem_again)
  moreover have "ScrubBridgeExecProcess g out3 = (out3, None)"
    if "ScrubBridgeExecProcess g b' = (out3, None)"
    using that unfolding ScrubBridgeExecProcess_def
    by (rule scrubBytes_again [where scrub = "scrubExecuteProcess g", rotated])
      (rule scrubExecuteProcess_again)
  ultimately show ?thesis by blast
qed

theorem scrubbing_idempotent_witness:
  \<open>ScrubProcessParameters 1 parameters_two_entries = (''{"CommandLine":"x","Environment":{"<scrubbed>":"<scrubbed>"}}'' @ [CHR 0x0A], None) \<and>
   ScrubProcessParameters 1 (''{"CommandLine":"x","Environment":{"<scrubbed>":"<scrubbed>"}}'' @ [CHR 0x0A]) = (''{"CommandLine":"x","Environment":{"<scrubbed>":"<scrubbed>"}}'' @ [CHR 0x0A], None) \<and>
   ScrubBridgeCreate 1 create_message = (''{"ActivityId":"a","ContainerConfig":{"OciSpecification":{"process":{"cwd":"/","env":["<scrubbed>"]}}},"ContainerId":"c"}'' @ [CHR 0x0A], None) \<and>
   ScrubBridgeCreate 1 (''{"ActivityId":"a","ContainerConfig":{"OciSpecification":{"process":{"cwd":"/","env":["<scrubbed>"]}}},"ContainerId":"c"}'' @ [CHR 0x0A]) = (''{"ActivityId":"a","ContainerConfig":{"OciSpecification":{"process":{"cwd":"/","env":["<scrubbed>"]}}},"ContainerId":"c"}'' @ [CHR 0x0A], None) \<and>
   ScrubBridgeExecProcess 1 exec_message_secret = (''{"ActivityId":"a","ContainerId":"c","Settings":{"ProcessParameters":"{'' @ CHR 0x5C # ''"CommandLine'' @ CHR 0x5C # ''":'' @ CHR 0x5C # ''"'' @ CHR 0x5C # ''",'' @ CHR 0x5C # ''"Environment'' @ CHR 0x5C # ''":{'' @ CHR 0x5C # ''"<scrubbed>'' @ CHR 0x5C # ''":'' @ CHR 0x5C # ''"<scrubbed>'' @ CHR 0x5C # ''"}}'' @ CHR 0x5C # ''n"}}'' @ [CHR 0x0A], None) \<and>
   ScrubBridgeExecProcess 1 (''{"ActivityId":"a","ContainerId":"c","Settings":{"ProcessParameters":"{'' @ CHR 0x5C # ''"CommandLine'' @ CHR 0x5C # ''":'' @ CHR 0x5C # ''"'' @ CHR 0x5C # ''",'' @ CHR 0x5C # ''"Environment'' @ CHR 0x5C # ''":{'' @ CHR 0x5C # ''"<scrubbed>'' @ CHR 0x5C # ''":'' @ CHR 0x5C # ''"<scrubbed>'' @ CHR 0x5C # ''"}}'' @ CHR 0x5C # ''n"}}'' @ [CHR 0x0A]) = (''{"ActivityId":"a","ContainerId":"c","Settings":{"ProcessParameters":"{'' @ CHR 0x5C # ''"CommandLine'' @ CHR 0x5C # ''":'' @ CHR 0x5C # ''"'' @ CHR 0x5C # ''",'' @ CHR 0x5C # ''"Environment'' @ CHR 0x5C # ''":{'' @ CHR 0x5C # ''"<scrubbed>'' @ CHR 0x5C # ''":'' @ CHR 0x5C # ''"<scrubbed>'' @ CHR 0x5C # ''"}}'' @ CHR 0x5C # ''n"}}'' @ [CHR 0x0A], None)\<close>
proof -
  have p: \<open>ScrubProcessParameters 1 parameters_two_entries = (''{"CommandLine":"x","Environment":{"<scrubbed>":"<scrubbed>"}}'' @ [CHR 0x0A], None)\<close>
    unfolding parameters_two_entries_def by code_simp
  have c: \<open>ScrubBridgeCreate 1 create_message = (''{"ActivityId":"a","ContainerConfig":{"OciSpecification":{"process":{"cwd":"/","env":["<scrubbed>"]}}},"ContainerId":"c"}'' @ [CHR 0x0A], None)\<close>
    unfolding create_message_def by code_simp
  have e: \<open>ScrubBridgeExecProcess 1 exec_message_secret = (''{"ActivityId":"a","ContainerId":"c","Settings":{"ProcessParameters":"{'' @ CHR 0x5C # ''"CommandLine'' @ CHR 0x5C # ''":'' @ CHR 0x5C # ''"'' @ CHR 0x5C # ''",'' @ CHR 0x5C # ''"Environment'' @ CHR 0x5C # ''":{'' @ CHR 0x5C # ''"<scrubbed>'' @ CHR 0x5C # ''":'' @ CHR 0x5C # ''"<scrubbed>'' @ CHR 0x5C # ''"}}'' @ CHR 0x5C # ''n"}}'' @ [CHR 0x0A], None)\<close>
    unfolding exec_message_secret_def by code_simp
  from scrubbing_idempotent [of 1 parameters_two_entries _ create_message _ exec_message_secret,
      unfolded p c e]
  show ?thesis unfolding p c e by simp
qed

end
